theory Spec2Isabelle
  imports Main "HOL-Library.Word"
begin

section \<open>The object pool of \<open>include/CObjectPool.hpp\<close>\<close>

text \<open>
  A shallow embedding of \<open>ObjectPool::CObjectPool<T>\<close> and of its nested
  \<open>CIterator\<close>. Every member function becomes a function from the pool before the
  call to the value returned and the pool after the call, so that what an error path
  leaves behind is part of the model. The element type \<open>T\<close> is the type variable
  \<open>'a\<close>; the value that \<open>T()\<close> constructs is the parameter \<open>d\<close> of the functions
  that call it, and \<open>T(args...)\<close> is \<open>mk args\<close> for a constructor \<open>mk\<close>.
  Running a destructor has no effect on the pool and is not modelled.
\<close>

subsection \<open>Data\<close>

datatype EPoolError = OUT_OF_RANGE | ALREADY_IN_USE | NOT_IN_USE | ALREADY_UNUSED | FULL

text \<open>
  \<open>struct CObject\<close>: the usage flag and the storage of one \<open>T\<close>, which always holds
  a constructed value.
\<close>

record 'a CObject =
  bInUse :: bool
  object :: 'a

text \<open>
  The members of the pool. Positions (\<open>poolSize\<close>, \<open>nextIdx\<close>, every \<open>pos\<close>) are
  \<open>size_t\<close> values that the code only compares with \<open>poolSize\<close> or increments below
  it, so they are natural numbers. The counter \<open>objectsInUse\<close> is incremented and
  decremented with no check of its own and is a 64-bit word, the \<open>size_t\<close> of an LP64
  target: \<open>+\<close> and \<open>-\<close> wrap.
\<close>

record 'a CObjectPool =
  poolSize :: nat
  nextIdx :: nat
  objectsInUse :: "64 word"
  pool :: "'a CObject list"

text \<open>
  A \<open>T*\<close> into the pool is the index of the slot whose storage it addresses: the
  slots are distinct objects of one vector, so two such pointers are equal exactly when
  the indices are. \<open>nullptr\<close> is \<open>None\<close> of \<open>T_ptr option\<close>.
\<close>

type_synonym T_ptr = nat

text \<open>\<open>std::expected<R, EPoolError>\<close> together with the pool after the call.\<close>

type_synonym ('r, 'a) TResult = "(EPoolError + 'r) \<times> 'a CObjectPool"

subsection \<open>Construction and the two assignments to a slot\<close>

text \<open>\<open>CObjectPool(size)\<close> for \<open>size = n\<close>: \<open>n\<close> slots, none in use, each holding \<open>T()\<close>.\<close>

definition CObjectPool_new :: "'a \<Rightarrow> nat \<Rightarrow> 'a CObjectPool" where
  "CObjectPool_new d n =
     \<lparr>poolSize = n, nextIdx = 0, objectsInUse = 0,
      pool = replicate n \<lparr>bInUse = False, object = d\<rparr>\<rparr>"

text \<open>\<open>pool[pos].bInUse = b\<close>\<close>

definition set_bInUse :: "'a CObjectPool \<Rightarrow> nat \<Rightarrow> bool \<Rightarrow> 'a CObjectPool" where
  "set_bInUse p pos b = p\<lparr>pool := (pool p)[pos := (pool p ! pos)\<lparr>bInUse := b\<rparr>]\<rparr>"

text \<open>\<open>std::destroy_at\<close> on the element of slot \<open>pos\<close>, then placement \<open>new\<close> of \<open>v\<close> there.\<close>

definition set_object :: "'a CObjectPool \<Rightarrow> nat \<Rightarrow> 'a \<Rightarrow> 'a CObjectPool" where
  "set_object p pos v = p\<lparr>pool := (pool p)[pos := (pool p ! pos)\<lparr>object := v\<rparr>]\<rparr>"

subsection \<open>Queries\<close>

definition Size :: "'a CObjectPool \<Rightarrow> nat" where
  "Size p = poolSize p"

definition ObjectsInUse :: "'a CObjectPool \<Rightarrow> 64 word" where
  "ObjectsInUse p = objectsInUse p"

definition IsInUse :: "'a CObjectPool \<Rightarrow> nat \<Rightarrow> bool" where
  "IsInUse p pos = (if pos \<ge> poolSize p then False else bInUse (pool p ! pos))"

text \<open>\<open>operator[]\<close>: the address of slot \<open>pos\<close>, with no check.\<close>

definition operator_index :: "'a CObjectPool \<Rightarrow> nat \<Rightarrow> T_ptr" where
  "operator_index p pos = pos"

text \<open>
  Reading and writing through a \<open>T*\<close> that addresses a slot of the pool
  (\<open>*ptr\<close> and \<open>*ptr = v\<close> in a caller).
\<close>

definition deref :: "'a CObjectPool \<Rightarrow> T_ptr \<Rightarrow> 'a" where
  "deref p ptr = object (pool p ! ptr)"

definition assign :: "'a CObjectPool \<Rightarrow> T_ptr \<Rightarrow> 'a \<Rightarrow> 'a CObjectPool" where
  "assign p ptr v = p\<lparr>pool := (pool p)[ptr := (pool p ! ptr)\<lparr>object := v\<rparr>]\<rparr>"

subsection \<open>The search cursor\<close>

text \<open>
  \<open>UpdateNextIdx\<close>: the loop
  \<open>for (pos = nextIdx, idx = 0; idx < poolSize; ++pos, pos %= poolSize, ++idx)\<close>
  stores the first position not in use into \<open>nextIdx\<close>, and leaves \<open>nextIdx\<close> alone
  when it finds none.
\<close>

function UpdateNextIdx_loop :: "'a CObjectPool \<Rightarrow> nat \<Rightarrow> nat \<Rightarrow> 'a CObjectPool" where
  "UpdateNextIdx_loop p pos idx =
     (if idx < poolSize p then
        (if bInUse (pool p ! pos)
         then UpdateNextIdx_loop p ((pos + 1) mod poolSize p) (idx + 1)
         else p\<lparr>nextIdx := pos\<rparr>)
      else p)"
  by pat_completeness auto
termination
  by (relation "measure (\<lambda>(p, pos, idx). poolSize p - idx)") auto

declare UpdateNextIdx_loop.simps [simp del]

definition UpdateNextIdx :: "'a CObjectPool \<Rightarrow> 'a CObjectPool" where
  "UpdateNextIdx p = UpdateNextIdx_loop p (nextIdx p) 0"

subsection \<open>Replace\<close>

definition Replace :: "'a \<Rightarrow> 'a CObjectPool \<Rightarrow> nat \<Rightarrow> (unit, 'a) TResult" where
  "Replace d p pos =
     (if pos \<ge> poolSize p then (Inl OUT_OF_RANGE, p)
      else (Inr (), set_bInUse (set_object p pos d) pos False))"

definition Replace_args ::
  "('args \<Rightarrow> 'a) \<Rightarrow> 'args \<Rightarrow> 'a CObjectPool \<Rightarrow> nat \<Rightarrow> (unit, 'a) TResult" where
  "Replace_args mk args p pos =
     (if pos \<ge> poolSize p then (Inl OUT_OF_RANGE, p)
      else (Inr (), set_bInUse (set_object p pos (mk args)) pos False))"

subsection \<open>Use, UseNext, UseNextReplace\<close>

definition incr_objectsInUse :: "'a CObjectPool \<Rightarrow> 'a CObjectPool" where
  "incr_objectsInUse p = p\<lparr>objectsInUse := objectsInUse p + 1\<rparr>"

definition decr_objectsInUse :: "'a CObjectPool \<Rightarrow> 'a CObjectPool" where
  "decr_objectsInUse p = p\<lparr>objectsInUse := objectsInUse p - 1\<rparr>"

definition Use :: "'a CObjectPool \<Rightarrow> nat \<Rightarrow> (T_ptr, 'a) TResult" where
  "Use p pos =
     (if pos \<ge> poolSize p then (Inl OUT_OF_RANGE, p)
      else if bInUse (pool p ! pos) then (Inl ALREADY_IN_USE, p)
      else (Inr pos, incr_objectsInUse (UpdateNextIdx (set_bInUse p pos True))))"

text \<open>
  The three \<open>UseNext\<close> functions run the loop of \<open>UpdateNextIdx\<close> from \<open>nextIdx\<close>.
  On success they return the value written to \<open>found_pos\<close> and the pointer; on
  \<open>FULL\<close> the caller's \<open>found_pos\<close> is not written.
\<close>

function UseNext_loop :: "'a CObjectPool \<Rightarrow> nat \<Rightarrow> nat \<Rightarrow> (nat \<times> T_ptr, 'a) TResult" where
  "UseNext_loop p pos idx =
     (if idx < poolSize p then
        (if bInUse (pool p ! pos)
         then UseNext_loop p ((pos + 1) mod poolSize p) (idx + 1)
         else (Inr (pos, pos), incr_objectsInUse (UpdateNextIdx (set_bInUse p pos True))))
      else (Inl FULL, p))"
  by pat_completeness auto
termination
  by (relation "measure (\<lambda>(p, pos, idx). poolSize p - idx)") auto

declare UseNext_loop.simps [simp del]

definition UseNext :: "'a CObjectPool \<Rightarrow> (nat \<times> T_ptr, 'a) TResult" where
  "UseNext p = UseNext_loop p (nextIdx p) 0"

function UseNextReplace_loop ::
  "'a \<Rightarrow> 'a CObjectPool \<Rightarrow> nat \<Rightarrow> nat \<Rightarrow> (nat \<times> T_ptr, 'a) TResult" where
  "UseNextReplace_loop d p pos idx =
     (if idx < poolSize p then
        (if bInUse (pool p ! pos)
         then UseNextReplace_loop d p ((pos + 1) mod poolSize p) (idx + 1)
         else (case Replace d p pos of
                 (Inl e, p') \<Rightarrow> (Inl e, p')
               | (Inr u, p') \<Rightarrow>
                   (Inr (pos, pos), UpdateNextIdx (incr_objectsInUse (set_bInUse p' pos True)))))
      else (Inl FULL, p))"
  by pat_completeness auto
termination
  by (relation "measure (\<lambda>(d, p, pos, idx). poolSize p - idx)") auto

declare UseNextReplace_loop.simps [simp del]

definition UseNextReplace :: "'a \<Rightarrow> 'a CObjectPool \<Rightarrow> (nat \<times> T_ptr, 'a) TResult" where
  "UseNextReplace d p = UseNextReplace_loop d p (nextIdx p) 0"

function UseNextReplace_args_loop ::
  "('args \<Rightarrow> 'a) \<Rightarrow> 'args \<Rightarrow> 'a CObjectPool \<Rightarrow> nat \<Rightarrow> nat \<Rightarrow> (nat \<times> T_ptr, 'a) TResult" where
  "UseNextReplace_args_loop mk args p pos idx =
     (if idx < poolSize p then
        (if bInUse (pool p ! pos)
         then UseNextReplace_args_loop mk args p ((pos + 1) mod poolSize p) (idx + 1)
         else (case Replace_args mk args p pos of
                 (Inl e, p') \<Rightarrow> (Inl e, p')
               | (Inr u, p') \<Rightarrow>
                   (Inr (pos, pos), UpdateNextIdx (incr_objectsInUse (set_bInUse p' pos True)))))
      else (Inl FULL, p))"
  by pat_completeness auto
termination
  by (relation "measure (\<lambda>(mk, args, p, pos, idx). poolSize p - idx)") auto

declare UseNextReplace_args_loop.simps [simp del]

definition UseNextReplace_args ::
  "('args \<Rightarrow> 'a) \<Rightarrow> 'args \<Rightarrow> 'a CObjectPool \<Rightarrow> (nat \<times> T_ptr, 'a) TResult" where
  "UseNextReplace_args mk args p = UseNextReplace_args_loop mk args p (nextIdx p) 0"

subsection \<open>Get and UnUse\<close>

definition Get :: "'a CObjectPool \<Rightarrow> nat \<Rightarrow> (T_ptr, 'a) TResult" where
  "Get p pos =
     (if pos \<ge> poolSize p then (Inl OUT_OF_RANGE, p)
      else if \<not> bInUse (pool p ! pos) then (Inl NOT_IN_USE, p)
      else (Inr pos, p))"

text \<open>The \<open>const\<close> overload of \<open>Get\<close> cannot change the pool and returns no pool.\<close>

definition Get_const :: "'a CObjectPool \<Rightarrow> nat \<Rightarrow> EPoolError + T_ptr" where
  "Get_const p pos =
     (if pos \<ge> poolSize p then Inl OUT_OF_RANGE
      else if \<not> bInUse (pool p ! pos) then Inl NOT_IN_USE
      else Inr pos)"

text \<open>\<open>UnUse\<close> drops the result of \<open>Replace\<close> (\<open>(void)Replace(pos)\<close>) and keeps its pool.\<close>

definition UnUse :: "'a \<Rightarrow> 'a CObjectPool \<Rightarrow> nat \<Rightarrow> (unit, 'a) TResult" where
  "UnUse d p pos =
     (if pos \<ge> poolSize p then (Inl OUT_OF_RANGE, p)
      else if \<not> bInUse (pool p ! pos) then (Inl ALREADY_UNUSED, p)
      else (Inr (), decr_objectsInUse (snd (Replace d p pos))))"

definition UnUse_args ::
  "('args \<Rightarrow> 'a) \<Rightarrow> 'args \<Rightarrow> 'a CObjectPool \<Rightarrow> nat \<Rightarrow> (unit, 'a) TResult" where
  "UnUse_args mk args p pos =
     (if pos \<ge> poolSize p then (Inl OUT_OF_RANGE, p)
      else if \<not> bInUse (pool p ! pos) then (Inl ALREADY_UNUSED, p)
      else (Inr (), decr_objectsInUse (snd (Replace_args mk args p pos))))"

subsection \<open>CIterator\<close>

text \<open>
  The members \<open>currentPos\<close> and \<open>pObject\<close>. The third member, \<open>pPool\<close>, is the pool
  the iterator was made from; the functions below take that pool as an argument.
\<close>

record CIterator =
  currentPos :: nat
  pObject :: "T_ptr option"

function SkipUnused_loop :: "'a CObjectPool \<Rightarrow> nat \<Rightarrow> nat" where
  "SkipUnused_loop p cur =
     (if cur < Size p \<and> \<not> IsInUse p cur then SkipUnused_loop p (cur + 1) else cur)"
  by pat_completeness auto
termination
  by (relation "measure (\<lambda>(p, cur). Size p - cur)") auto

declare SkipUnused_loop.simps [simp del]

definition SkipUnused :: "'a CObjectPool \<Rightarrow> CIterator \<Rightarrow> CIterator" where
  "SkipUnused p it =
     (let cur = SkipUnused_loop p (currentPos it)
      in \<lparr>currentPos = cur,
          pObject = (if IsInUse p cur then Some (operator_index p cur) else None)\<rparr>)"

definition SkipToEnd :: "'a CObjectPool \<Rightarrow> CIterator \<Rightarrow> CIterator" where
  "SkipToEnd p it = \<lparr>currentPos = Size p, pObject = None\<rparr>"

text \<open>\<open>CIterator(p_pool, b_begin)\<close>, and \<open>begin()\<close> and \<open>end()\<close> of the pool.\<close>

definition CIterator_new :: "'a CObjectPool \<Rightarrow> bool \<Rightarrow> CIterator" where
  "CIterator_new p b_begin =
     (if b_begin then SkipUnused p \<lparr>currentPos = 0, pObject = None\<rparr>
      else SkipToEnd p \<lparr>currentPos = 0, pObject = None\<rparr>)"

definition pool_begin :: "'a CObjectPool \<Rightarrow> CIterator" where
  "pool_begin p = CIterator_new p True"

definition pool_end :: "'a CObjectPool \<Rightarrow> CIterator" where
  "pool_end p = CIterator_new p False"

text \<open>Pre-increment, \<open>==\<close>, \<open>!=\<close> and \<open>*\<close>; dereferencing \<open>nullptr\<close> has no value.\<close>

definition operator_inc :: "'a CObjectPool \<Rightarrow> CIterator \<Rightarrow> CIterator" where
  "operator_inc p it = SkipUnused p (it\<lparr>currentPos := currentPos it + 1\<rparr>)"

definition operator_eq :: "CIterator \<Rightarrow> CIterator \<Rightarrow> bool" where
  "operator_eq a b = (pObject a = pObject b)"

definition operator_neq :: "CIterator \<Rightarrow> CIterator \<Rightarrow> bool" where
  "operator_neq a b = (pObject a \<noteq> pObject b)"

definition operator_deref :: "'a CObjectPool \<Rightarrow> CIterator \<Rightarrow> 'a option" where
  "operator_deref p it = map_option (deref p) (pObject it)"

section \<open>Definitions for the statements and their proofs\<close>

text \<open>
  What the constructor establishes and every member function keeps
  (\<open>pool_wf_reachable\<close> below): the vector has \<open>poolSize\<close> slots and the cursor is a
  position of the pool (0 in a pool of no slots).
\<close>

definition pool_wf :: "'a CObjectPool \<Rightarrow> bool" where
  "pool_wf p = (length (pool p) = poolSize p \<and> nextIdx p \<le> poolSize p - 1)"

text \<open>The indices for which \<open>IsInUse\<close> is true, in increasing order.\<close>

definition active_indices :: "'a CObjectPool \<Rightarrow> nat list" where
  "active_indices p = filter (IsInUse p) [0..<Size p]"

text \<open>
  The search policy in the words of the specification: the \<open>n\<close> positions in circular
  order from \<open>start\<close>, and the first of them, from the cursor, that is free.
\<close>

definition circular_order :: "nat \<Rightarrow> nat \<Rightarrow> nat list" where
  "circular_order n start = map (\<lambda>k. (start + k) mod n) [0..<n]"

definition first_free :: "'a CObjectPool \<Rightarrow> nat option" where
  "first_free p =
     find (\<lambda>i. \<not> bInUse (pool p ! i)) (circular_order (poolSize p) (nextIdx p))"

text \<open>
  The position at which the loop shared by \<open>UpdateNextIdx\<close> and the \<open>UseNext\<close>
  functions leaves its \<open>continue\<close>, if it does.
\<close>

function free_scan :: "'a CObjectPool \<Rightarrow> nat \<Rightarrow> nat \<Rightarrow> nat option" where
  "free_scan p pos idx =
     (if idx < poolSize p then
        (if bInUse (pool p ! pos) then free_scan p ((pos + 1) mod poolSize p) (idx + 1)
         else Some pos)
      else None)"
  by pat_completeness auto
termination
  by (relation "measure (\<lambda>(p, pos, idx). poolSize p - idx)") auto

declare free_scan.simps [simp del]

subsection \<open>Traversal\<close>

text \<open>
  The loop \<open>for (auto it = pool.begin(); it != pool.end(); ++it)\<close> of a caller, as the
  list of the iterators at which its body runs. It ends: an iterator that differs from
  \<open>end()\<close> points at a slot, and \<open>++\<close> moves \<open>currentPos\<close> forward to an active
  position or clears \<open>pObject\<close>.
\<close>

lemma IsInUse_less: "IsInUse p i \<Longrightarrow> i < poolSize p"
  by (simp add: IsInUse_def split: if_splits)

lemma SkipUnused_loop_ge: "cur \<le> SkipUnused_loop p cur"
proof (induction p cur rule: SkipUnused_loop.induct)
  case (1 p cur)
  show ?case
  proof (cases "cur < Size p \<and> \<not> IsInUse p cur")
    case True
    with 1 have "cur + 1 \<le> SkipUnused_loop p (cur + 1)" by simp
    moreover from True have "SkipUnused_loop p cur = SkipUnused_loop p (cur + 1)"
      by (subst SkipUnused_loop.simps) simp
    ultimately show ?thesis by simp
  next
    case False
    then show ?thesis by (subst SkipUnused_loop.simps) auto
  qed
qed

function traverse :: "'a CObjectPool \<Rightarrow> CIterator \<Rightarrow> CIterator list" where
  "traverse p it =
     (if operator_neq it (pool_end p) then it # traverse p (operator_inc p it) else [])"
  by pat_completeness auto
termination
proof (relation "measure (\<lambda>(p, it). case pObject it of None \<Rightarrow> 0 | Some q \<Rightarrow> Suc (poolSize p - currentPos it))")
  show "wf (measure (\<lambda>(p, it). case pObject it of None \<Rightarrow> 0 | Some q \<Rightarrow> Suc (poolSize p - currentPos it)))"
    by simp
next
  fix p :: "'a CObjectPool" and it :: CIterator
  assume "operator_neq it (pool_end p)"
  then obtain q where q: "pObject it = Some q"
    by (auto simp: operator_neq_def pool_end_def CIterator_new_def SkipToEnd_def)
  let ?c = "SkipUnused_loop p (currentPos it + 1)"
  have ge: "currentPos it + 1 \<le> ?c" by (rule SkipUnused_loop_ge)
  show "((p, operator_inc p it), (p, it)) \<in> measure (\<lambda>(p, it). case pObject it of None \<Rightarrow> 0 | Some q \<Rightarrow> Suc (poolSize p - currentPos it))"
  proof (cases "IsInUse p ?c")
    case True
    then have "?c < poolSize p" by (rule IsInUse_less)
    with ge q True show ?thesis
      by (simp add: operator_inc_def SkipUnused_def Let_def)
  next
    case False
    with q show ?thesis
      by (simp add: operator_inc_def SkipUnused_def Let_def)
  qed
qed

declare traverse.simps [simp del]

text \<open>The iterators over a pool: what \<open>begin()\<close>, \<open>end()\<close> and \<open>++\<close> produce.\<close>

inductive pool_iterator :: "'a CObjectPool \<Rightarrow> CIterator \<Rightarrow> bool" for p :: "'a CObjectPool" where
  it_begin: "pool_iterator p (pool_begin p)"
| it_end: "pool_iterator p (pool_end p)"
| it_inc: "pool_iterator p it \<Longrightarrow> pool_iterator p (operator_inc p it)"

code_pred (modes: i \<Rightarrow> o \<Rightarrow> bool) pool_iterator .

subsection \<open>Calling \<open>UseNext\<close> in a row\<close>

text \<open>\<open>n\<close> successive calls of \<open>UseNext\<close>, with the results in order.\<close>

fun UseNext_times :: "nat \<Rightarrow> 'a CObjectPool \<Rightarrow> (EPoolError + nat \<times> T_ptr) list \<times> 'a CObjectPool" where
  "UseNext_times 0 p = ([], p)"
| "UseNext_times (Suc n) p =
     (case UseNext p of (r, p') \<Rightarrow>
        (case UseNext_times n p' of (rs, p'') \<Rightarrow> (r # rs, p'')))"

text \<open>
  The pool after \<open>j\<close> calls of \<open>UseNext\<close> on a fresh pool: the slots below \<open>j\<close> are
  the active ones, and the cursor stands at \<open>j\<close>, or at the last slot once the pool is
  full.
\<close>

definition filled_upto :: "'a CObjectPool \<Rightarrow> nat \<Rightarrow> bool" where
  "filled_upto p j =
     (pool_wf p \<and> j \<le> poolSize p \<and>
      (\<forall>i<poolSize p. bInUse (pool p ! i) = (i < j)) \<and>
      nextIdx p = min j (poolSize p - 1))"

subsection \<open>Sequences of public operations\<close>

text \<open>
  A call of a public member function, and the pool it leaves behind whether it succeeds
  or fails. \<open>Get\<close> and \<open>IsInUse\<close> are in the list although they change nothing.
\<close>

datatype 'args pool_op =
    OpUse nat
  | OpUseNext
  | OpUseNextReplace
  | OpUseNextReplace_args 'args
  | OpUnUse nat
  | OpUnUse_args nat 'args
  | OpReplace nat
  | OpReplace_args nat 'args
  | OpGet nat
  | OpIsInUse nat

fun apply_op :: "'a \<Rightarrow> ('args \<Rightarrow> 'a) \<Rightarrow> 'a CObjectPool \<Rightarrow> 'args pool_op \<Rightarrow> 'a CObjectPool" where
  "apply_op d mk p (OpUse pos) = snd (Use p pos)"
| "apply_op d mk p OpUseNext = snd (UseNext p)"
| "apply_op d mk p OpUseNextReplace = snd (UseNextReplace d p)"
| "apply_op d mk p (OpUseNextReplace_args args) = snd (UseNextReplace_args mk args p)"
| "apply_op d mk p (OpUnUse pos) = snd (UnUse d p pos)"
| "apply_op d mk p (OpUnUse_args pos args) = snd (UnUse_args mk args p pos)"
| "apply_op d mk p (OpReplace pos) = snd (Replace d p pos)"
| "apply_op d mk p (OpReplace_args pos args) = snd (Replace_args mk args p pos)"
| "apply_op d mk p (OpGet pos) = snd (Get p pos)"
| "apply_op d mk p (OpIsInUse pos) = p"

fun run_ops :: "'a \<Rightarrow> ('args \<Rightarrow> 'a) \<Rightarrow> 'a CObjectPool \<Rightarrow> 'args pool_op list \<Rightarrow> 'a CObjectPool" where
  "run_ops d mk p [] = p"
| "run_ops d mk p (x # xs) = run_ops d mk (apply_op d mk p x) xs"

text \<open>The call is not a \<open>Replace\<close> of a slot that is in use.\<close>

fun spares_active :: "'a CObjectPool \<Rightarrow> 'args pool_op \<Rightarrow> bool" where
  "spares_active p (OpReplace pos) = (\<not> IsInUse p pos)"
| "spares_active p (OpReplace_args pos args) = (\<not> IsInUse p pos)"
| "spares_active p x = True"

fun all_spare_active ::
  "'a \<Rightarrow> ('args \<Rightarrow> 'a) \<Rightarrow> 'a CObjectPool \<Rightarrow> 'args pool_op list \<Rightarrow> bool" where
  "all_spare_active d mk p [] = True"
| "all_spare_active d mk p (x # xs) =
     (spares_active p x \<and> all_spare_active d mk (apply_op d mk p x) xs)"

text \<open>
  The counter is in step with the flags; the vector's length fits the counter's type.
\<close>

definition counter_in_step :: "'a CObjectPool \<Rightarrow> bool" where
  "counter_in_step p =
     (pool_wf p \<and> poolSize p < 2 ^ 64 \<and>
      objectsInUse p = of_nat (length (active_indices p)))"

section \<open>Basic facts\<close>


lemma set_bInUse_fields [simp]:
  "poolSize (set_bInUse p pos b) = poolSize p"
  "nextIdx (set_bInUse p pos b) = nextIdx p"
  "objectsInUse (set_bInUse p pos b) = objectsInUse p"
  "length (pool (set_bInUse p pos b)) = length (pool p)"
  by (simp_all add: set_bInUse_def)

lemma set_object_fields [simp]:
  "poolSize (set_object p pos v) = poolSize p"
  "nextIdx (set_object p pos v) = nextIdx p"
  "objectsInUse (set_object p pos v) = objectsInUse p"
  "length (pool (set_object p pos v)) = length (pool p)"
  by (simp_all add: set_object_def)

lemma set_bInUse_nth:
  "i < length (pool p) \<Longrightarrow>
   pool (set_bInUse p pos b) ! i =
     (if i = pos then (pool p ! pos)\<lparr>bInUse := b\<rparr> else pool p ! i)"
  by (simp add: set_bInUse_def nth_list_update)

lemma set_object_nth:
  "i < length (pool p) \<Longrightarrow>
   pool (set_object p pos v) ! i =
     (if i = pos then (pool p ! pos)\<lparr>object := v\<rparr> else pool p ! i)"
  by (simp add: set_object_def nth_list_update)

lemma set_bInUse_object:
  "object (pool (set_bInUse p pos b) ! j) = object (pool p ! j)"
  by (cases "j = pos"; cases "pos < length (pool p)")
    (simp_all add: set_bInUse_def list_update_beyond)

lemma incr_objectsInUse_fields [simp]:
  "poolSize (incr_objectsInUse p) = poolSize p"
  "nextIdx (incr_objectsInUse p) = nextIdx p"
  "objectsInUse (incr_objectsInUse p) = objectsInUse p + 1"
  "pool (incr_objectsInUse p) = pool p"
  by (simp_all add: incr_objectsInUse_def)

lemma decr_objectsInUse_fields [simp]:
  "poolSize (decr_objectsInUse p) = poolSize p"
  "nextIdx (decr_objectsInUse p) = nextIdx p"
  "objectsInUse (decr_objectsInUse p) = objectsInUse p - 1"
  "pool (decr_objectsInUse p) = pool p"
  by (simp_all add: decr_objectsInUse_def)

lemma IsInUse_nth: "i < poolSize p \<Longrightarrow> IsInUse p i = bInUse (pool p ! i)"
  by (simp add: IsInUse_def)

subsection \<open>Replace\<close>

lemma Replace_ok:
  "pos < poolSize p \<Longrightarrow>
   Replace d p pos = (Inr (), set_bInUse (set_object p pos d) pos False)"
  by (simp add: Replace_def)

lemma Replace_args_ok:
  "pos < poolSize p \<Longrightarrow>
   Replace_args mk args p pos = (Inr (), set_bInUse (set_object p pos (mk args)) pos False)"
  by (simp add: Replace_args_def)

lemma slot_rebuilt:
  "(c :: 'a CObject)\<lparr>object := v, bInUse := False\<rparr> = \<lparr>bInUse = False, object = v\<rparr>"
  by (cases c) simp

lemma reconstructed_pool:
  "set_bInUse (set_object p pos v) pos False =
     p\<lparr>pool := (pool p)[pos := \<lparr>bInUse = False, object = v\<rparr>]\<rparr>"
  by (cases "pos < length (pool p)")
    (simp_all add: set_bInUse_def set_object_def slot_rebuilt list_update_beyond)

lemma reconstructed_slot:
  "pool (set_bInUse (set_object p pos v) pos False) ! i =
     (if i = pos \<and> pos < length (pool p) then \<lparr>bInUse = False, object = v\<rparr> else pool p ! i)"
  by (cases "pos < length (pool p)")
    (auto simp: reconstructed_pool nth_list_update list_update_beyond)

subsection \<open>Error paths\<close>

lemma UseNext_loop_error:
  "fst (UseNext_loop p pos idx) = Inl e \<Longrightarrow> UseNext_loop p pos idx = (Inl FULL, p)"
proof (induction p pos idx rule: UseNext_loop.induct)
  case (1 p pos idx)
  show ?case
  proof (cases "idx < poolSize p")
    case False
    then show ?thesis by (simp add: UseNext_loop.simps)
  next
    case True
    show ?thesis
    proof (cases "bInUse (pool p ! pos)")
      case used: True
      with True have eq: "UseNext_loop p pos idx = UseNext_loop p ((pos + 1) mod poolSize p) (idx + 1)"
        by (subst UseNext_loop.simps) simp
      with 1 True used show ?thesis by simp
    next
      case False
      with True have "fst (UseNext_loop p pos idx) = Inr (pos, pos)"
        by (subst UseNext_loop.simps) simp
      with "1.prems" show ?thesis by simp
    qed
  qed
qed

lemma UseNextReplace_loop_error:
  "fst (UseNextReplace_loop d p pos idx) = Inl e \<Longrightarrow> snd (UseNextReplace_loop d p pos idx) = p"
proof (induction d p pos idx rule: UseNextReplace_loop.induct)
  case (1 d p pos idx)
  show ?case
  proof (cases "idx < poolSize p")
    case False
    then show ?thesis by (simp add: UseNextReplace_loop.simps)
  next
    case True
    show ?thesis
    proof (cases "bInUse (pool p ! pos)")
      case used: True
      with True have "UseNextReplace_loop d p pos idx =
          UseNextReplace_loop d p ((pos + 1) mod poolSize p) (idx + 1)"
        by (subst UseNextReplace_loop.simps) simp
      with 1 True used show ?thesis by simp
    next
      case False
      with True "1.prems" show ?thesis
        by (subst UseNextReplace_loop.simps, subst (asm) UseNextReplace_loop.simps)
           (simp add: Replace_def split: if_splits)
    qed
  qed
qed

lemma UseNextReplace_args_loop_error:
  "fst (UseNextReplace_args_loop mk args p pos idx) = Inl e \<Longrightarrow>
   snd (UseNextReplace_args_loop mk args p pos idx) = p"
proof (induction mk args p pos idx rule: UseNextReplace_args_loop.induct)
  case (1 mk args p pos idx)
  show ?case
  proof (cases "idx < poolSize p")
    case False
    then show ?thesis by (simp add: UseNextReplace_args_loop.simps)
  next
    case True
    show ?thesis
    proof (cases "bInUse (pool p ! pos)")
      case used: True
      with True have "UseNextReplace_args_loop mk args p pos idx =
          UseNextReplace_args_loop mk args p ((pos + 1) mod poolSize p) (idx + 1)"
        by (subst UseNextReplace_args_loop.simps) simp
      with 1 True used show ?thesis by simp
    next
      case False
      with True "1.prems" show ?thesis
        by (subst UseNextReplace_args_loop.simps, subst (asm) UseNextReplace_args_loop.simps)
           (simp add: Replace_args_def split: if_splits)
    qed
  qed
qed

subsection \<open>The circular order\<close>

lemma circ_hit:
  assumes "j < n"
  shows "\<exists>k<n. (s + k) mod n = (j::nat)"
proof (cases "s mod n \<le> j")
  case True
  have "(s + (j - s mod n)) mod n = (s mod n + (j - s mod n)) mod n"
    by (simp add: mod_add_left_eq)
  also from True have "\<dots> = j mod n" by simp
  finally have "(s + (j - s mod n)) mod n = j" using assms by simp
  moreover from assms have "j - s mod n < n" by simp
  ultimately show ?thesis by blast
next
  case False
  from assms have sn: "s mod n < n" by simp
  have "(s + (j + n - s mod n)) mod n = (s mod n + (j + n - s mod n)) mod n"
    by (simp add: mod_add_left_eq)
  also from sn have "\<dots> = (j + n) mod n" by simp
  finally have "(s + (j + n - s mod n)) mod n = j" using assms by simp
  moreover from False sn have "j + n - s mod n < n" by simp
  ultimately show ?thesis by blast
qed

lemma shift_order:
  "map (\<lambda>k. (pos + k) mod n) (map Suc [0..<m]) =
   map (\<lambda>k. ((pos + 1) mod n + k) mod n) [0..<m]"
  by (simp add: mod_add_left_eq)

lemma set_circular_order: "0 < n \<Longrightarrow> set (circular_order n s) = {0..<n}"
proof
  show "set (circular_order n s) \<subseteq> {0..<n}" if "0 < n"
    using that by (auto simp: circular_order_def)
  show "{0..<n} \<subseteq> set (circular_order n s)"
  proof
    fix j assume "j \<in> {0..<n}"
    then have "j < n" by simp
    then obtain k where "k < n" "(s + k) mod n = j" using circ_hit by blast
    then show "j \<in> set (circular_order n s)"
      by (auto simp: circular_order_def image_iff intro!: bexI [of _ k])
  qed
qed

lemma free_scan_find:
  "pos < poolSize p \<Longrightarrow>
   free_scan p pos idx =
     find (\<lambda>i. \<not> bInUse (pool p ! i)) (map (\<lambda>k. (pos + k) mod poolSize p) [0..<poolSize p - idx])"
proof (induction p pos idx rule: free_scan.induct)
  case (1 p pos idx)
  show ?case
  proof (cases "idx < poolSize p")
    case False
    then show ?thesis by (simp add: free_scan.simps)
  next
    case True
    then have up: "[0..<poolSize p - idx] = 0 # map Suc [0..<poolSize p - (idx + 1)]"
      by (metis Suc_diff_Suc Suc_eq_plus1 map_Suc_upt upt_conv_Cons zero_less_Suc)
    show ?thesis
    proof (cases "bInUse (pool p ! pos)")
      case used: True
      from True have "(pos + 1) mod poolSize p < poolSize p" by simp
      with 1 True used have "free_scan p ((pos + 1) mod poolSize p) (idx + 1) =
        find (\<lambda>i. \<not> bInUse (pool p ! i))
          (map (\<lambda>k. ((pos + 1) mod poolSize p + k) mod poolSize p) [0..<poolSize p - (idx + 1)])"
        by simp
      moreover from True used have "free_scan p pos idx = free_scan p ((pos + 1) mod poolSize p) (idx + 1)"
        by (subst free_scan.simps) simp
      ultimately show ?thesis using used "1.prems"
        by (simp only: up list.map find.simps shift_order) simp
    next
      case False
      with True "1.prems" show ?thesis
        by (subst free_scan.simps) (simp add: up del: upt_Suc)
    qed
  qed
qed

subsection \<open>The four loops find the same position\<close>

lemma UpdateNextIdx_loop_scan:
  "UpdateNextIdx_loop p pos idx =
     (case free_scan p pos idx of None \<Rightarrow> p | Some q \<Rightarrow> p\<lparr>nextIdx := q\<rparr>)"
proof (induction p pos idx rule: free_scan.induct)
  case (1 p pos idx)
  show ?case
  proof (cases "idx < poolSize p \<and> bInUse (pool p ! pos)")
    case True
    with 1 show ?thesis
      by (subst UpdateNextIdx_loop.simps, subst free_scan.simps) simp
  next
    case False
    then show ?thesis
      by (subst UpdateNextIdx_loop.simps, subst free_scan.simps) auto
  qed
qed

lemma UseNext_loop_scan:
  "UseNext_loop p pos idx =
     (case free_scan p pos idx of
        None \<Rightarrow> (Inl FULL, p)
      | Some q \<Rightarrow> (Inr (q, q), incr_objectsInUse (UpdateNextIdx (set_bInUse p q True))))"
proof (induction p pos idx rule: free_scan.induct)
  case (1 p pos idx)
  show ?case
  proof (cases "idx < poolSize p \<and> bInUse (pool p ! pos)")
    case True
    with 1 show ?thesis
      by (subst UseNext_loop.simps, subst free_scan.simps) simp
  next
    case False
    then show ?thesis
      by (subst UseNext_loop.simps, subst free_scan.simps) auto
  qed
qed

lemma UseNextReplace_loop_scan:
  "UseNextReplace_loop d p pos idx =
     (case free_scan p pos idx of
        None \<Rightarrow> (Inl FULL, p)
      | Some q \<Rightarrow>
          (case Replace d p q of
             (Inl e, p') \<Rightarrow> (Inl e, p')
           | (Inr u, p') \<Rightarrow>
               (Inr (q, q), UpdateNextIdx (incr_objectsInUse (set_bInUse p' q True)))))"
proof (induction p pos idx rule: free_scan.induct)
  case (1 p pos idx)
  show ?case
  proof (cases "idx < poolSize p \<and> bInUse (pool p ! pos)")
    case True
    with 1 show ?thesis
      by (subst UseNextReplace_loop.simps, subst free_scan.simps) simp
  next
    case False
    then show ?thesis
      by (subst UseNextReplace_loop.simps, subst free_scan.simps) auto
  qed
qed

lemma UseNextReplace_args_loop_scan:
  "UseNextReplace_args_loop mk args p pos idx =
     (case free_scan p pos idx of
        None \<Rightarrow> (Inl FULL, p)
      | Some q \<Rightarrow>
          (case Replace_args mk args p q of
             (Inl e, p') \<Rightarrow> (Inl e, p')
           | (Inr u, p') \<Rightarrow>
               (Inr (q, q), UpdateNextIdx (incr_objectsInUse (set_bInUse p' q True)))))"
proof (induction p pos idx rule: free_scan.induct)
  case (1 p pos idx)
  show ?case
  proof (cases "idx < poolSize p \<and> bInUse (pool p ! pos)")
    case True
    with 1 show ?thesis
      by (subst UseNextReplace_args_loop.simps, subst free_scan.simps) simp
  next
    case False
    then show ?thesis
      by (subst UseNextReplace_args_loop.simps, subst free_scan.simps) auto
  qed
qed

lemma first_free_scan:
  assumes "pool_wf p"
  shows "free_scan p (nextIdx p) 0 = first_free p"
proof (cases "poolSize p = 0")
  case True
  then show ?thesis
    by (simp add: free_scan.simps first_free_def circular_order_def)
next
  case False
  with assms have "nextIdx p < poolSize p" by (auto simp: pool_wf_def)
  then show ?thesis
    by (simp add: free_scan_find first_free_def circular_order_def)
qed

lemma first_free_Some:
  assumes "first_free p = Some q"
  shows "q < poolSize p \<and> \<not> bInUse (pool p ! q)"
proof -
  from assms have "q \<in> set (circular_order (poolSize p) (nextIdx p)) \<and> \<not> bInUse (pool p ! q)"
    by (auto simp: first_free_def find_Some_iff)
  moreover have "poolSize p \<noteq> 0"
    using assms by (cases "poolSize p = 0") (simp_all add: first_free_def circular_order_def)
  ultimately show ?thesis by (auto simp: circular_order_def)
qed

lemma first_free_None:
  "first_free p = None \<longleftrightarrow> (\<forall>i<poolSize p. bInUse (pool p ! i))"
proof (cases "poolSize p = 0")
  case True
  then show ?thesis by (simp add: first_free_def circular_order_def)
next
  case False
  then have "set (circular_order (poolSize p) (nextIdx p)) = {0..<poolSize p}"
    by (simp add: set_circular_order)
  then show ?thesis by (auto simp: first_free_def find_None_iff)
qed

lemma UpdateNextIdx_fields [simp]:
  "poolSize (UpdateNextIdx p) = poolSize p"
  "objectsInUse (UpdateNextIdx p) = objectsInUse p"
  "pool (UpdateNextIdx p) = pool p"
  by (simp_all add: UpdateNextIdx_def UpdateNextIdx_loop_scan split: option.split)

lemma UpdateNextIdx_first_free:
  "pool_wf p \<Longrightarrow>
   UpdateNextIdx p = (case first_free p of None \<Rightarrow> p | Some q \<Rightarrow> p\<lparr>nextIdx := q\<rparr>)"
  by (simp add: UpdateNextIdx_def UpdateNextIdx_loop_scan first_free_scan)

lemma UpdateNextIdx_wf: "pool_wf p \<Longrightarrow> pool_wf (UpdateNextIdx p)"
  by (auto simp: UpdateNextIdx_first_free pool_wf_def split: option.split
      dest!: first_free_Some)

subsection \<open>The cursor update and the counter are independent\<close>

lemma free_scan_cong:
  "poolSize q = poolSize p \<Longrightarrow> pool q = pool p \<Longrightarrow> free_scan q pos idx = free_scan p pos idx"
proof (induction p pos idx rule: free_scan.induct)
  case (1 p pos idx)
  show ?case
  proof (cases "idx < poolSize p \<and> bInUse (pool p ! pos)")
    case True
    with 1 show ?thesis
      by (subst free_scan.simps, subst (2) free_scan.simps) simp
  next
    case False
    with "1.prems" show ?thesis
      by (subst free_scan.simps, subst (2) free_scan.simps) auto
  qed
qed

lemma UpdateNextIdx_incr:
  "UpdateNextIdx (incr_objectsInUse p) = incr_objectsInUse (UpdateNextIdx p)"
proof -
  have "free_scan (incr_objectsInUse p) (nextIdx p) 0 = free_scan p (nextIdx p) 0"
    by (rule free_scan_cong) simp_all
  then show ?thesis
    by (simp add: UpdateNextIdx_def UpdateNextIdx_loop_scan incr_objectsInUse_def
        split: option.split)
qed

lemma reconstructed_wf:
  "pool_wf p \<Longrightarrow> pool_wf (set_bInUse (set_object p pos v) pos False)"
  by (simp add: pool_wf_def)

lemma first_free_reconstructed:
  assumes "\<not> bInUse (pool p ! i)"
  shows "first_free (set_bInUse (set_object p i v) i False) = first_free p"
proof -
  have "(\<lambda>j. \<not> bInUse (pool (set_bInUse (set_object p i v) i False) ! j)) =
        (\<lambda>j. \<not> bInUse (pool p ! j))"
    using assms by (auto simp: reconstructed_slot)
  then show ?thesis by (simp add: first_free_def)
qed

subsection \<open>Counting the active slots\<close>

lemma distinct_active_indices: "distinct (active_indices p)"
  by (simp add: active_indices_def)

lemma set_active_indices: "set (active_indices p) = {i. IsInUse p i}"
  by (auto simp: active_indices_def Size_def dest: IsInUse_less)

lemma length_filter_without:
  assumes "distinct xs" and "x \<in> set xs"
  shows "length (filter (\<lambda>j. j \<noteq> x) xs) + 1 = length xs"
proof -
  have "{j. \<not> j \<noteq> x} \<inter> set xs = {x}"
    using assms(2) by auto
  with assms(1) have "length (filter (\<lambda>j. \<not> j \<noteq> x) xs) = 1"
    by (simp add: distinct_length_filter)
  with sum_length_filter_compl [of "\<lambda>j. j \<noteq> x" xs] show ?thesis
    by simp
qed

lemma active_indices_reconstructed:
  assumes "pool_wf p" and "pos < poolSize p"
  shows "active_indices (set_bInUse (set_object p pos v) pos False) =
         filter (\<lambda>j. j \<noteq> pos) (active_indices p)"
proof -
  from assms(1) have len: "length (pool p) = poolSize p"
    by (simp add: pool_wf_def)
  have "filter (IsInUse (set_bInUse (set_object p pos v) pos False)) [0..<poolSize p] =
        filter (\<lambda>j. j \<noteq> pos \<and> IsInUse p j) [0..<poolSize p]"
    using len assms(2) by (intro filter_cong) (auto simp: IsInUse_def reconstructed_slot)
  then show ?thesis
    by (simp add: active_indices_def Size_def conj_commute)
qed

lemma active_count_reconstructed:
  assumes "pool_wf p" and "IsInUse p pos"
  shows "length (active_indices (set_bInUse (set_object p pos v) pos False)) + 1 =
         length (active_indices p)"
proof -
  from assms(2) have "pos < poolSize p" by (rule IsInUse_less)
  with assms(1) have "active_indices (set_bInUse (set_object p pos v) pos False) =
      filter (\<lambda>j. j \<noteq> pos) (active_indices p)"
    by (rule active_indices_reconstructed)
  moreover from assms(2) have "pos \<in> set (active_indices p)"
    by (simp add: set_active_indices)
  then have "length (filter (\<lambda>j. j \<noteq> pos) (active_indices p)) + 1 = length (active_indices p)"
    by (rule length_filter_without [OF distinct_active_indices])
  ultimately show ?thesis
    by simp
qed

subsection \<open>Iterators\<close>

lemma SkipUnused_loop_stop:
  "SkipUnused_loop p cur < Size p \<Longrightarrow> IsInUse p (SkipUnused_loop p cur)"
proof (induction p cur rule: SkipUnused_loop.induct)
  case (1 p cur)
  show ?case
  proof (cases "cur < Size p \<and> \<not> IsInUse p cur")
    case True
    then have "SkipUnused_loop p cur = SkipUnused_loop p (cur + 1)"
      by (subst SkipUnused_loop.simps) simp
    with 1 True show ?thesis by simp
  next
    case False
    then have "SkipUnused_loop p cur = cur"
      by (subst SkipUnused_loop.simps) auto
    with False "1.prems" show ?thesis by simp
  qed
qed

lemma SkipUnused_loop_skip:
  "cur < Size p \<Longrightarrow> \<not> IsInUse p cur \<Longrightarrow> SkipUnused_loop p cur = SkipUnused_loop p (cur + 1)"
  by (subst SkipUnused_loop.simps) simp

lemma SkipUnused_loop_stay:
  "Size p \<le> cur \<or> IsInUse p cur \<Longrightarrow> SkipUnused_loop p cur = cur"
  by (subst SkipUnused_loop.simps) auto

lemma traverse_SkipUnused:
  "map pObject (traverse p (SkipUnused p it)) =
   map Some (filter (IsInUse p) [currentPos it..<Size p])"
proof (induction "Size p - currentPos it" arbitrary: it)
  case 0
  then have ge: "Size p \<le> currentPos it" by simp
  then have "SkipUnused p it = \<lparr>currentPos = currentPos it, pObject = None\<rparr>"
    by (auto simp: SkipUnused_def SkipUnused_loop_stay Let_def Size_def dest: IsInUse_less)
  with ge show ?case
    by (subst traverse.simps)
       (simp add: operator_neq_def pool_end_def CIterator_new_def SkipToEnd_def)
next
  case (Suc n)
  then have lt: "currentPos it < Size p" by simp
  then have up: "[currentPos it..<Size p] = currentPos it # [currentPos it + 1..<Size p]"
    by (simp add: upt_conv_Cons)
  have ih: "map pObject (traverse p (SkipUnused p (it\<lparr>currentPos := currentPos it + 1\<rparr>))) =
      map Some (filter (IsInUse p) [currentPos it + 1..<Size p])"
    using Suc.hyps(1) [of "it\<lparr>currentPos := currentPos it + 1\<rparr>"] Suc.hyps(2) by simp
  show ?case
  proof (cases "IsInUse p (currentPos it)")
    case True
    then have sk: "SkipUnused p it = \<lparr>currentPos = currentPos it, pObject = Some (currentPos it)\<rparr>"
      by (simp add: SkipUnused_def SkipUnused_loop_stay Let_def operator_index_def)
    have "traverse p (SkipUnused p it) =
        SkipUnused p it # traverse p (operator_inc p (SkipUnused p it))"
      by (subst traverse.simps)
         (simp add: sk operator_neq_def pool_end_def CIterator_new_def SkipToEnd_def)
    moreover have "operator_inc p (SkipUnused p it) =
        SkipUnused p (it\<lparr>currentPos := currentPos it + 1\<rparr>)"
      unfolding operator_inc_def sk by (simp add: SkipUnused_def)
    ultimately show ?thesis using True ih
      by (simp add: up sk)
  next
    case False
    with lt have "SkipUnused p it = SkipUnused p (it\<lparr>currentPos := currentPos it + 1\<rparr>)"
      by (simp add: SkipUnused_def SkipUnused_loop_skip)
    with False ih show ?thesis by (simp add: up)
  qed
qed

lemma traverse_begin:
  "map pObject (traverse p (pool_begin p)) = map Some (active_indices p)"
  using traverse_SkipUnused [of p "\<lparr>currentPos = 0, pObject = None\<rparr>"]
  by (simp add: pool_begin_def CIterator_new_def active_indices_def)

lemma pool_iterator_pObject:
  "pool_iterator p it \<Longrightarrow>
   pObject it = (if IsInUse p (currentPos it) then Some (currentPos it) else None) \<and>
   (currentPos it < Size p \<longrightarrow> IsInUse p (currentPos it))"
proof (induction rule: pool_iterator.induct)
  case it_begin
  then show ?case
    using SkipUnused_loop_stop [of p 0]
    by (simp add: pool_begin_def CIterator_new_def SkipUnused_def Let_def operator_index_def)
next
  case it_end
  then show ?case
    by (auto simp: pool_end_def CIterator_new_def SkipToEnd_def Size_def dest: IsInUse_less)
next
  case (it_inc it)
  then show ?case
    using SkipUnused_loop_stop [of p "currentPos it + 1"]
    by (simp add: operator_inc_def SkipUnused_def Let_def operator_index_def)
qed

subsection \<open>Filling a fresh pool\<close>

lemma filled_upto_new: "filled_upto (CObjectPool_new d n) 0"
  by (simp add: filled_upto_def pool_wf_def CObjectPool_new_def)

lemma free_scan_here:
  "idx < poolSize p \<Longrightarrow> \<not> bInUse (pool p ! pos) \<Longrightarrow> free_scan p pos idx = Some pos"
  by (subst free_scan.simps) simp

lemma free_scan_next:
  "idx < poolSize p \<Longrightarrow> bInUse (pool p ! pos) \<Longrightarrow>
   free_scan p pos idx = free_scan p ((pos + 1) mod poolSize p) (idx + 1)"
  by (subst free_scan.simps) simp

lemma set_bInUse_wf: "pool_wf p \<Longrightarrow> pool_wf (set_bInUse p pos b)"
  by (simp add: pool_wf_def)

lemma UseNext_fill_step:
  assumes "filled_upto p j" and "j < poolSize p"
  shows "fst (UseNext p) = Inr (j, j)"
    and "filled_upto (snd (UseNext p)) (Suc j)"
    and "poolSize (snd (UseNext p)) = poolSize p"
proof -
  from assms have wf: "pool_wf p" and len: "length (pool p) = poolSize p"
    and flags: "\<And>i. i < poolSize p \<Longrightarrow> bInUse (pool p ! i) = (i < j)"
    and nx: "nextIdx p = j"
    by (auto simp: filled_upto_def pool_wf_def)
  let ?q = "set_bInUse p j True"
  have wfq: "pool_wf ?q" using wf by (rule set_bInUse_wf)
  have qflags: "bInUse (pool ?q ! i) = (i < Suc j)" if "i < poolSize p" for i
    using that len flags [of i] assms(2) by (auto simp: set_bInUse_nth)
  have "free_scan p (nextIdx p) 0 = Some j"
    using assms(2) flags [of j] by (simp add: nx free_scan_here)
  with wf have ff: "first_free p = Some j"
    by (simp add: first_free_scan)
  have nxt: "UseNext p = (Inr (j, j), incr_objectsInUse (UpdateNextIdx ?q))"
    using wf ff by (simp add: UseNext_def UseNext_loop_scan first_free_scan)
  have cur: "nextIdx (UpdateNextIdx ?q) = min (Suc j) (poolSize p - 1)"
  proof (cases "Suc j < poolSize p")
    case True
    then have one: "1 < poolSize p" by simp
    from assms(2) qflags [of j]
    have "free_scan ?q j 0 = free_scan ?q ((j + 1) mod poolSize ?q) (0 + 1)"
      by (intro free_scan_next) simp_all
    also from True have "(j + 1) mod poolSize ?q = Suc j" by simp
    also from True one qflags [of "Suc j"] have "free_scan ?q (Suc j) (0 + 1) = Some (Suc j)"
      by (intro free_scan_here) simp_all
    finally have "free_scan ?q (nextIdx ?q) 0 = Some (Suc j)"
      by (simp add: nx)
    with True show ?thesis
      by (simp add: UpdateNextIdx_def UpdateNextIdx_loop_scan)
  next
    case False
    with assms(2) have last: "Suc j = poolSize p" by simp
    then have "\<forall>i<poolSize ?q. bInUse (pool ?q ! i)"
      using qflags by simp
    then have "first_free ?q = None"
      by (simp only: first_free_None)
    with wfq last show ?thesis
      by (simp add: UpdateNextIdx_first_free nx)
  qed
  show "fst (UseNext p) = Inr (j, j)"
    by (simp add: nxt)
  show "poolSize (snd (UseNext p)) = poolSize p"
    by (simp add: nxt)
  have "pool_wf (incr_objectsInUse (UpdateNextIdx ?q))"
    using UpdateNextIdx_wf [OF wfq] by (simp add: pool_wf_def)
  with assms(2) qflags cur show "filled_upto (snd (UseNext p)) (Suc j)"
    by (simp add: nxt filled_upto_def)
qed

lemma UseNext_times_fill:
  "filled_upto p j \<Longrightarrow> j + m \<le> poolSize p \<Longrightarrow>
   fst (UseNext_times m p) = map (\<lambda>i. Inr (i, i)) [j..<j + m] \<and>
   filled_upto (snd (UseNext_times m p)) (j + m) \<and>
   poolSize (snd (UseNext_times m p)) = poolSize p"
proof (induction m arbitrary: p j)
  case 0
  then show ?case by simp
next
  case (Suc m)
  from Suc.prems have j: "j < poolSize p" by simp
  note step = UseNext_fill_step [OF Suc.prems(1) j]
  from Suc.prems step(3) have "Suc j + m \<le> poolSize (snd (UseNext p))" by simp
  from Suc.IH [OF step(2) this] step(1) step(3) show ?case
    by (simp add: split_beta upt_conv_Cons)
qed

lemma filled_upto_full:
  assumes "filled_upto p (poolSize p)"
  shows "pool_wf p" and "\<forall>i<poolSize p. bInUse (pool p ! i)"
  using assms by (simp_all add: filled_upto_def)

subsection \<open>Writing through pointers\<close>

lemma assign_fields [simp]:
  "poolSize (assign p ptr v) = poolSize p"
  "nextIdx (assign p ptr v) = nextIdx p"
  "objectsInUse (assign p ptr v) = objectsInUse p"
  "length (pool (assign p ptr v)) = length (pool p)"
  by (simp_all add: assign_def)

lemma assign_bInUse: "bInUse (pool (assign p ptr v) ! i) = bInUse (pool p ! i)"
  by (cases "i = ptr"; cases "ptr < length (pool p)")
    (simp_all add: assign_def list_update_beyond)

lemma fold_assign_keeps:
  "poolSize (fold (\<lambda>(ptr, v) p. assign p ptr v) ws p) = poolSize p \<and>
   nextIdx (fold (\<lambda>(ptr, v) p. assign p ptr v) ws p) = nextIdx p \<and>
   length (pool (fold (\<lambda>(ptr, v) p. assign p ptr v) ws p)) = length (pool p) \<and>
   (\<forall>i. bInUse (pool (fold (\<lambda>(ptr, v) p. assign p ptr v) ws p) ! i) = bInUse (pool p ! i))"
  by (induction ws arbitrary: p) (auto simp: assign_bInUse)

subsection \<open>A single free slot\<close>

lemma first_free_only:
  assumes "k < poolSize p" and "\<not> bInUse (pool p ! k)"
    and "\<forall>i<poolSize p. i \<noteq> k \<longrightarrow> bInUse (pool p ! i)"
  shows "first_free p = Some k"
proof (cases "first_free p")
  case None
  with assms(1,2) show ?thesis by (simp add: first_free_None)
next
  case (Some q)
  from first_free_Some [OF Some] assms(3) have "q = k" by blast
  with Some show ?thesis by simp
qed

subsection \<open>What a traversal yields\<close>

lemma sorted_active_indices: "sorted_wrt (<) (active_indices p)"
  by (simp add: active_indices_def sorted_wrt_filter)

lemma traverse_elements:
  "map (operator_deref p) (traverse p (pool_begin p)) =
   map (\<lambda>i. Some (deref p i)) (active_indices p)"
proof -
  have "map (operator_deref p) (traverse p (pool_begin p)) =
      map (map_option (deref p)) (map pObject (traverse p (pool_begin p)))"
    by (simp add: operator_deref_def)
  then show ?thesis
    by (simp only: traverse_begin) simp
qed

lemma traverse_length:
  "length (traverse p (pool_begin p)) = length (active_indices p)"
  using arg_cong [OF traverse_begin [of p], of length] by simp

lemma begin_is_end:
  assumes "active_indices p = []"
  shows "operator_eq (pool_begin p) (pool_end p)"
proof -
  from assms traverse_length [of p] have "traverse p (pool_begin p) = []"
    by simp
  then show ?thesis
    by (subst (asm) traverse.simps)
       (simp add: operator_eq_def operator_neq_def split: if_splits)
qed

lemma only_last_active:
  assumes "active_indices p = [Size p - 1]"
  shows "traverse p (pool_begin p) = [pool_begin p] \<and>
         pObject (pool_begin p) = Some (Size p - 1) \<and>
         operator_eq (operator_inc p (pool_begin p)) (pool_end p)"
proof -
  from assms traverse_begin [of p]
  have one: "map pObject (traverse p (pool_begin p)) = [Some (Size p - 1)]"
    by simp
  then have ne: "traverse p (pool_begin p) \<noteq> []" by auto
  then have neq: "operator_neq (pool_begin p) (pool_end p)"
    by (subst (asm) traverse.simps) (simp split: if_splits)
  then have unf: "traverse p (pool_begin p) =
      pool_begin p # traverse p (operator_inc p (pool_begin p))"
    by (subst traverse.simps) simp
  with one have rest: "traverse p (operator_inc p (pool_begin p)) = []"
    and obj: "pObject (pool_begin p) = Some (Size p - 1)"
    by simp_all
  from rest have "operator_eq (operator_inc p (pool_begin p)) (pool_end p)"
    by (subst (asm) traverse.simps)
       (simp add: operator_eq_def operator_neq_def split: if_splits)
  with unf rest obj show ?thesis by simp
qed

subsection \<open>The counter, as long as \<open>Replace\<close> spares the active slots\<close>

lemma active_indices_cong:
  "poolSize q = poolSize p \<Longrightarrow> pool q = pool p \<Longrightarrow> active_indices q = active_indices p"
  by (simp add: active_indices_def IsInUse_def Size_def cong: filter_cong)

lemma length_active_indices: "length (active_indices p) \<le> poolSize p"
  using length_filter_le [of "IsInUse p" "[0..<Size p]"]
  by (simp add: active_indices_def Size_def)

lemma counter_in_step_unat:
  assumes "counter_in_step p"
  shows "unat (ObjectsInUse p) = length (active_indices p)"
    and "unat (ObjectsInUse p) \<le> Size p"
proof -
  from assms length_active_indices [of p]
  have "length (active_indices p) < 2 ^ LENGTH(64)"
    by (simp add: counter_in_step_def)
  then have "unat (of_nat (length (active_indices p)) :: 64 word) = length (active_indices p)"
    by (rule of_nat_inverse [OF refl])
  with assms show "unat (ObjectsInUse p) = length (active_indices p)"
    by (simp add: counter_in_step_def ObjectsInUse_def)
  with length_active_indices [of p] show "unat (ObjectsInUse p) \<le> Size p"
    by (simp add: Size_def)
qed

lemma active_indices_activated:
  assumes "pool_wf p" and "i < poolSize p" and "\<not> bInUse (pool p ! i)"
  shows "length (active_indices (set_bInUse p i True)) = length (active_indices p) + 1"
proof -
  from assms(1) have len: "length (pool p) = poolSize p"
    by (simp add: pool_wf_def)
  let ?q = "set_bInUse p i True"
  have "filter (IsInUse p) [0..<poolSize p] =
        filter (\<lambda>j. j \<noteq> i \<and> IsInUse ?q j) [0..<poolSize p]"
    using len assms(2,3) by (intro filter_cong) (auto simp: IsInUse_def set_bInUse_nth)
  then have "active_indices p = filter (\<lambda>j. j \<noteq> i) (active_indices ?q)"
    by (simp add: active_indices_def Size_def conj_commute)
  moreover from len assms(2) have "i \<in> set (active_indices ?q)"
    by (simp add: set_active_indices IsInUse_def set_bInUse_nth)
  then have "length (filter (\<lambda>j. j \<noteq> i) (active_indices ?q)) + 1 = length (active_indices ?q)"
    by (rule length_filter_without [OF distinct_active_indices])
  ultimately show ?thesis by simp
qed

lemma active_indices_rebuilt_free:
  assumes "pool_wf p" and "i < poolSize p" and "\<not> bInUse (pool p ! i)"
  shows "active_indices (set_bInUse (set_object p i v) i False) = active_indices p"
proof -
  from assms(2,3) have "i \<notin> set (active_indices p)"
    by (simp add: set_active_indices IsInUse_def)
  then have "filter (\<lambda>j. j \<noteq> i) (active_indices p) = active_indices p"
    by (intro filter_True) auto
  with active_indices_reconstructed [OF assms(1,2)] show ?thesis by simp
qed

lemma counter_in_step_activate:
  assumes "counter_in_step p" and "i < poolSize p" and "\<not> bInUse (pool p ! i)"
  shows "counter_in_step (incr_objectsInUse (UpdateNextIdx (set_bInUse p i True)))"
proof -
  from assms(1) have wf: "pool_wf p" by (simp add: counter_in_step_def)
  let ?q = "incr_objectsInUse (UpdateNextIdx (set_bInUse p i True))"
  have "pool_wf (UpdateNextIdx (set_bInUse p i True))"
    using wf by (intro UpdateNextIdx_wf set_bInUse_wf)
  then have wfq: "pool_wf ?q" by (simp add: pool_wf_def)
  have "active_indices ?q = active_indices (set_bInUse p i True)"
    by (rule active_indices_cong) simp_all
  with active_indices_activated [OF wf assms(2,3)]
  have "length (active_indices ?q) = length (active_indices p) + 1" by simp
  with assms(1) wfq show ?thesis
    by (simp add: counter_in_step_def)
qed

lemma counter_in_step_rebuild_free:
  assumes "counter_in_step p" and "i < poolSize p" and "\<not> bInUse (pool p ! i)"
  shows "counter_in_step (set_bInUse (set_object p i v) i False)"
  using assms active_indices_rebuilt_free [of p i v]
  by (simp add: counter_in_step_def reconstructed_wf)

lemma counter_in_step_release:
  assumes "counter_in_step p" and "IsInUse p i"
  shows "counter_in_step (decr_objectsInUse (set_bInUse (set_object p i v) i False))"
proof -
  from assms(1) have wf: "pool_wf p" by (simp add: counter_in_step_def)
  let ?r = "set_bInUse (set_object p i v) i False"
  have "active_indices (decr_objectsInUse ?r) = active_indices ?r"
    by (rule active_indices_cong) simp_all
  with active_count_reconstructed [OF wf assms(2), of v]
  have "length (active_indices p) = length (active_indices (decr_objectsInUse ?r)) + 1"
    by simp
  with assms(1) reconstructed_wf [OF wf, of i v] show ?thesis
    by (simp add: counter_in_step_def pool_wf_def)
qed

lemma UseNext_first_free:
  "pool_wf p \<Longrightarrow>
   UseNext p =
     (case first_free p of
        None \<Rightarrow> (Inl FULL, p)
      | Some i \<Rightarrow> (Inr (i, i), incr_objectsInUse (UpdateNextIdx (set_bInUse p i True))))"
  by (simp add: UseNext_def UseNext_loop_scan first_free_scan)

lemma UseNextReplace_first_free:
  assumes "pool_wf p"
  shows "UseNextReplace d p =
     (case first_free p of
        None \<Rightarrow> (Inl FULL, p)
      | Some i \<Rightarrow>
          (Inr (i, i), incr_objectsInUse (UpdateNextIdx
             (set_bInUse (set_bInUse (set_object p i d) i False) i True))))"
proof (cases "first_free p")
  case None
  with assms show ?thesis
    by (simp add: UseNextReplace_def UseNextReplace_loop_scan first_free_scan)
next
  case (Some i)
  from first_free_Some [OF Some] have "i < poolSize p" by simp
  with assms Some show ?thesis
    by (simp add: UseNextReplace_def UseNextReplace_loop_scan first_free_scan Replace_ok
        UpdateNextIdx_incr)
qed

lemma UseNextReplace_args_first_free:
  assumes "pool_wf p"
  shows "UseNextReplace_args mk args p =
     (case first_free p of
        None \<Rightarrow> (Inl FULL, p)
      | Some i \<Rightarrow>
          (Inr (i, i), incr_objectsInUse (UpdateNextIdx
             (set_bInUse (set_bInUse (set_object p i (mk args)) i False) i True))))"
proof (cases "first_free p")
  case None
  with assms show ?thesis
    by (simp add: UseNextReplace_args_def UseNextReplace_args_loop_scan first_free_scan)
next
  case (Some i)
  from first_free_Some [OF Some] have "i < poolSize p" by simp
  with assms Some show ?thesis
    by (simp add: UseNextReplace_args_def UseNextReplace_args_loop_scan first_free_scan
        Replace_args_ok UpdateNextIdx_incr)
qed

lemma counter_in_step_rebuild_activate:
  assumes "counter_in_step p" and "first_free p = Some i"
  shows "counter_in_step (incr_objectsInUse (UpdateNextIdx
           (set_bInUse (set_bInUse (set_object p i v) i False) i True)))"
proof -
  from assms(1) have len: "length (pool p) = poolSize p"
    by (simp add: counter_in_step_def pool_wf_def)
  from first_free_Some [OF assms(2)] have i: "i < poolSize p" "\<not> bInUse (pool p ! i)"
    by simp_all
  from assms(1) i have "counter_in_step (set_bInUse (set_object p i v) i False)"
    by (rule counter_in_step_rebuild_free)
  moreover from i len have "\<not> bInUse (pool (set_bInUse (set_object p i v) i False) ! i)"
    by (simp add: reconstructed_slot)
  ultimately show ?thesis
    using i(1) by (intro counter_in_step_activate) simp_all
qed

lemma counter_in_step_apply_op:
  assumes "counter_in_step p" and "spares_active p x"
  shows "counter_in_step (apply_op d mk p x)"
proof -
  from assms(1) have wf: "pool_wf p" by (simp add: counter_in_step_def)
  show ?thesis
  proof (cases x)
    case (OpUse pos)
    with assms(1) show ?thesis
      by (auto simp: Use_def intro: counter_in_step_activate)
  next
    case OpUseNext
    show ?thesis
    proof (cases "first_free p")
      case None
      with assms(1) wf OpUseNext show ?thesis by (simp add: UseNext_first_free)
    next
      case (Some i)
      from first_free_Some [OF Some] assms(1)
      have "counter_in_step (incr_objectsInUse (UpdateNextIdx (set_bInUse p i True)))"
        by (intro counter_in_step_activate) simp_all
      with wf Some OpUseNext show ?thesis by (simp add: UseNext_first_free)
    qed
  next
    case OpUseNextReplace
    show ?thesis
    proof (cases "first_free p")
      case None
      with assms(1) wf OpUseNextReplace show ?thesis
        by (simp add: UseNextReplace_first_free)
    next
      case (Some i)
      from counter_in_step_rebuild_activate [OF assms(1) Some, of d] wf Some OpUseNextReplace
      show ?thesis by (simp add: UseNextReplace_first_free)
    qed
  next
    case (OpUseNextReplace_args args)
    show ?thesis
    proof (cases "first_free p")
      case None
      with assms(1) wf OpUseNextReplace_args show ?thesis
        by (simp add: UseNextReplace_args_first_free)
    next
      case (Some i)
      from counter_in_step_rebuild_activate [OF assms(1) Some, of "mk args"] wf Some
        OpUseNextReplace_args
      show ?thesis by (simp add: UseNextReplace_args_first_free)
    qed
  next
    case (OpUnUse pos)
    show ?thesis
    proof (cases "IsInUse p pos")
      case True
      from counter_in_step_release [OF assms(1) True, of d] True OpUnUse show ?thesis
        by (simp add: UnUse_def Replace_def IsInUse_def split: if_splits)
    next
      case False
      with assms(1) OpUnUse show ?thesis
        by (auto simp: UnUse_def IsInUse_def split: if_splits)
    qed
  next
    case (OpUnUse_args pos args)
    show ?thesis
    proof (cases "IsInUse p pos")
      case True
      from counter_in_step_release [OF assms(1) True, of "mk args"] True OpUnUse_args
      show ?thesis
        by (simp add: UnUse_args_def Replace_args_def IsInUse_def split: if_splits)
    next
      case False
      with assms(1) OpUnUse_args show ?thesis
        by (auto simp: UnUse_args_def IsInUse_def split: if_splits)
    qed
  next
    case (OpReplace pos)
    with assms show ?thesis
      by (auto simp: Replace_def IsInUse_def intro: counter_in_step_rebuild_free)
  next
    case (OpReplace_args pos args)
    with assms show ?thesis
      by (auto simp: Replace_args_def IsInUse_def intro: counter_in_step_rebuild_free)
  next
    case (OpGet pos)
    with assms(1) show ?thesis by (simp add: Get_def)
  next
    case (OpIsInUse pos)
    with assms(1) show ?thesis by simp
  qed
qed

lemma counter_in_step_run_ops:
  "counter_in_step p \<Longrightarrow> all_spare_active d mk p xs \<Longrightarrow> counter_in_step (run_ops d mk p xs)"
  by (induction xs arbitrary: p) (simp_all add: counter_in_step_apply_op)

lemma counter_in_step_new: "n < 2 ^ 64 \<Longrightarrow> counter_in_step (CObjectPool_new d n)"
proof -
  have "filter (IsInUse (CObjectPool_new d n)) [0..<n] = []"
    by (simp add: filter_empty_conv IsInUse_def CObjectPool_new_def)
  then show "n < 2 ^ 64 \<Longrightarrow> counter_in_step (CObjectPool_new d n)"
    by (simp add: counter_in_step_def pool_wf_def active_indices_def Size_def
        CObjectPool_new_def)
qed

text \<open>
  From a fresh pool, every sequence of public calls in which no \<open>Replace\<close> hits a slot
  that is in use keeps \<open>ObjectsInUse()\<close> equal to the number of indices in use, and
  so at most \<open>Size()\<close>.
\<close>

lemma count_invariant_sparing_active:
  assumes "n < 2 ^ 64" and "all_spare_active d mk (CObjectPool_new d n) xs"
  shows "unat (ObjectsInUse (run_ops d mk (CObjectPool_new d n) xs)) =
           length (active_indices (run_ops d mk (CObjectPool_new d n) xs)) \<and>
         unat (ObjectsInUse (run_ops d mk (CObjectPool_new d n) xs)) \<le>
           Size (run_ops d mk (CObjectPool_new d n) xs)"
  using counter_in_step_unat [OF counter_in_step_run_ops [OF counter_in_step_new [OF assms(1)] assms(2)]]
  by simp

lemma traverse_count_in_step:
  "counter_in_step p \<Longrightarrow> length (traverse p (pool_begin p)) = unat (ObjectsInUse p)"
  by (simp add: traverse_length counter_in_step_unat)

subsection \<open>Every reachable pool is well formed\<close>

lemma pool_wf_new: "pool_wf (CObjectPool_new d n)"
  by (simp add: pool_wf_def CObjectPool_new_def)

lemma pool_wf_activate:
  "pool_wf p \<Longrightarrow> pool_wf (incr_objectsInUse (UpdateNextIdx (set_bInUse p i True)))"
  using UpdateNextIdx_wf [OF set_bInUse_wf, of p i True] by (simp add: pool_wf_def)

lemma pool_wf_apply_op:
  assumes "pool_wf p"
  shows "pool_wf (apply_op d mk p x)"
proof (cases x)
  case (OpUse pos)
  with assms show ?thesis by (simp add: Use_def pool_wf_activate)
next
  case OpUseNext
  with assms show ?thesis
    by (simp add: UseNext_first_free pool_wf_activate split: option.split)
next
  case OpUseNextReplace
  with assms show ?thesis
    by (simp add: UseNextReplace_first_free pool_wf_activate reconstructed_wf
        split: option.split)
next
  case (OpUseNextReplace_args args)
  with assms show ?thesis
    by (simp add: UseNextReplace_args_first_free pool_wf_activate reconstructed_wf
        split: option.split)
next
  case (OpUnUse pos)
  with assms show ?thesis by (simp add: UnUse_def Replace_def pool_wf_def)
next
  case (OpUnUse_args pos args)
  with assms show ?thesis by (simp add: UnUse_args_def Replace_args_def pool_wf_def)
next
  case (OpReplace pos)
  with assms show ?thesis by (simp add: Replace_def pool_wf_def)
next
  case (OpReplace_args pos args)
  with assms show ?thesis by (simp add: Replace_args_def pool_wf_def)
next
  case (OpGet pos)
  with assms show ?thesis by (simp add: Get_def)
next
  case (OpIsInUse pos)
  with assms show ?thesis by simp
qed

lemma pool_wf_run_ops: "pool_wf p \<Longrightarrow> pool_wf (run_ops d mk p xs)"
  by (induction xs arbitrary: p) (simp_all add: pool_wf_apply_op)

lemma pool_wf_assign: "pool_wf p \<Longrightarrow> pool_wf (assign p ptr v)"
  by (simp add: pool_wf_def)

lemma pool_wf_reachable: "pool_wf (run_ops d mk (CObjectPool_new d n) xs)"
  by (rule pool_wf_run_ops [OF pool_wf_new])

section \<open>The claims\<close>

text \<open>
  C1. The count invariant: after every sequence of public operations on a fresh pool,
  \<open>0 \<le> ObjectsInUse() \<le> Size()\<close>, and \<open>ObjectsInUse()\<close> is the number of indices
  for which \<open>IsInUse\<close> is true. The code keeps it along every sequence in which no
  \<open>Replace\<close> hits an active slot (\<open>count_invariant_sparing_active\<close>) and loses it
  otherwise: on a fresh pool of one slot, \<open>Use(0)\<close> then \<open>Replace(0)\<close> leaves the
  counter at 1 with no slot active, and a further \<open>Use(0)\<close> raises the counter to 2,
  above the capacity 1.
\<close>

theorem count_invariant_lost_by_Replace:
  "fst (Use (CObjectPool_new (0::nat) 1) 0) = Inr 0 \<and>
   fst (Replace 0 (snd (Use (CObjectPool_new (0::nat) 1) 0)) 0) = Inr () \<and>
   ObjectsInUse (snd (Replace 0 (snd (Use (CObjectPool_new (0::nat) 1) 0)) 0)) = 1 \<and>
   IsInUse (snd (Replace 0 (snd (Use (CObjectPool_new (0::nat) 1) 0)) 0)) 0 = False \<and>
   active_indices (snd (Replace 0 (snd (Use (CObjectPool_new (0::nat) 1) 0)) 0)) = [] \<and>
   fst (Use (snd (Replace 0 (snd (Use (CObjectPool_new (0::nat) 1) 0)) 0)) 0) = Inr 0 \<and>
   ObjectsInUse (snd (Use (snd (Replace 0 (snd (Use (CObjectPool_new (0::nat) 1) 0)) 0)) 0)) = 2 \<and>
   Size (snd (Use (snd (Replace 0 (snd (Use (CObjectPool_new (0::nat) 1) 0)) 0)) 0)) = 1 \<and>
   length (active_indices
     (snd (Use (snd (Replace 0 (snd (Use (CObjectPool_new (0::nat) 1) 0)) 0)) 0))) = 1"
  by code_simp

text \<open>
  C2. For every index \<open>pos\<close> below the capacity, \<open>Replace(pos)\<close> and
  \<open>Replace(pos, args...)\<close> succeed whether the slot is active or free: afterwards the
  slot holds the newly constructed element (\<open>T()\<close>, or \<open>T(args...)\<close>) with its flag
  false, and every other slot, the cursor and the counter are as before. The only
  error is \<open>OUT_OF_RANGE\<close>, returned exactly when \<open>pos\<close> is not below the capacity.
\<close>

theorem Replace_total_on_valid_index:
  assumes "pool_wf p"
  shows "(pos < Size p \<longrightarrow>
            fst (Replace d p pos) = Inr () \<and>
            fst (Replace_args mk args p pos) = Inr () \<and>
            pool (snd (Replace d p pos)) ! pos = \<lparr>bInUse = False, object = d\<rparr> \<and>
            pool (snd (Replace_args mk args p pos)) ! pos = \<lparr>bInUse = False, object = mk args\<rparr> \<and>
            IsInUse (snd (Replace d p pos)) pos = False \<and>
            IsInUse (snd (Replace_args mk args p pos)) pos = False \<and>
            snd (Replace d p pos) = p\<lparr>pool := (pool p)[pos := \<lparr>bInUse = False, object = d\<rparr>]\<rparr> \<and>
            snd (Replace_args mk args p pos) =
              p\<lparr>pool := (pool p)[pos := \<lparr>bInUse = False, object = mk args\<rparr>]\<rparr>)
       \<and> (\<forall>e. fst (Replace d p pos) = Inl e \<longleftrightarrow> (e = OUT_OF_RANGE \<and> Size p \<le> pos))
       \<and> (\<forall>e. fst (Replace_args mk args p pos) = Inl e \<longleftrightarrow> (e = OUT_OF_RANGE \<and> Size p \<le> pos))"
proof -
  from assms have len: "length (pool p) = poolSize p"
    by (simp add: pool_wf_def)
  have ok: "pos < Size p \<longrightarrow>
            fst (Replace d p pos) = Inr () \<and>
            fst (Replace_args mk args p pos) = Inr () \<and>
            pool (snd (Replace d p pos)) ! pos = \<lparr>bInUse = False, object = d\<rparr> \<and>
            pool (snd (Replace_args mk args p pos)) ! pos = \<lparr>bInUse = False, object = mk args\<rparr> \<and>
            IsInUse (snd (Replace d p pos)) pos = False \<and>
            IsInUse (snd (Replace_args mk args p pos)) pos = False \<and>
            snd (Replace d p pos) = p\<lparr>pool := (pool p)[pos := \<lparr>bInUse = False, object = d\<rparr>]\<rparr> \<and>
            snd (Replace_args mk args p pos) =
              p\<lparr>pool := (pool p)[pos := \<lparr>bInUse = False, object = mk args\<rparr>]\<rparr>"
    using len
    by (simp add: Size_def Replace_ok Replace_args_ok reconstructed_slot IsInUse_def
        reconstructed_pool)
  have e1: "\<forall>e. fst (Replace d p pos) = Inl e \<longleftrightarrow> (e = OUT_OF_RANGE \<and> Size p \<le> pos)"
    by (auto simp: Replace_def Size_def)
  have e2: "\<forall>e. fst (Replace_args mk args p pos) = Inl e \<longleftrightarrow> (e = OUT_OF_RANGE \<and> Size p \<le> pos)"
    by (auto simp: Replace_args_def Size_def)
  from ok e1 e2 show ?thesis by blast
qed

text \<open>
  At a pool of three slots whose slot 1 is active and holds 9: \<open>Replace(1)\<close> and
  \<open>Replace(1, 5)\<close> succeed and leave slot 1 free with the new element.
\<close>

theorem Replace_total_on_valid_index_witness:
  "pool_wf (snd (Use (assign (CObjectPool_new (0::nat) 3) 1 9) 1)) \<and>
   (1::nat) < Size (snd (Use (assign (CObjectPool_new (0::nat) 3) 1 9) 1)) \<and>
   IsInUse (snd (Use (assign (CObjectPool_new (0::nat) 3) 1 9) 1)) 1 \<and>
   deref (snd (Use (assign (CObjectPool_new (0::nat) 3) 1 9) 1)) 1 = 9 \<and>
   fst (Replace 0 (snd (Use (assign (CObjectPool_new (0::nat) 3) 1 9) 1)) 1) = Inr () \<and>
   pool (snd (Replace 0 (snd (Use (assign (CObjectPool_new (0::nat) 3) 1 9) 1)) 1)) ! 1 =
     \<lparr>bInUse = False, object = 0\<rparr> \<and>
   pool (snd (Replace_args (\<lambda>x. x) 5 (snd (Use (assign (CObjectPool_new (0::nat) 3) 1 9) 1)) 1)) ! 1 =
     \<lparr>bInUse = False, object = 5\<rparr>"
proof -
  let ?p = "snd (Use (assign (CObjectPool_new (0::nat) 3) 1 9) 1)"
  have p: "?p = \<lparr>poolSize = 3, nextIdx = 0, objectsInUse = 1,
      pool = [\<lparr>bInUse = False, object = 0\<rparr>, \<lparr>bInUse = True, object = 9\<rparr>,
              \<lparr>bInUse = False, object = 0\<rparr>]\<rparr>"
    by (simp add: Use_def assign_def CObjectPool_new_def numeral_3_eq_3 set_bInUse_def
        UpdateNextIdx_def UpdateNextIdx_loop.simps incr_objectsInUse_def)
  have wf: "pool_wf ?p" unfolding p by (simp add: pool_wf_def)
  have lt: "(1::nat) < Size ?p" unfolding p by (simp add: Size_def)
  from Replace_total_on_valid_index [OF wf, of 1 0 "\<lambda>x. x" 5] lt
  show ?thesis using wf unfolding p by (simp add: IsInUse_def deref_def)
qed

text \<open>
  C3. For every index \<open>pos\<close> below the capacity, \<open>Replace(pos)\<close> and
  \<open>Replace(pos, args...)\<close> leave the counter \<open>ObjectsInUse()\<close> as it was, also when the
  slot was active, while the number of active slots then drops by one; \<open>UnUse\<close> is the
  operation that subtracts one. So after \<open>Replace\<close> on an active slot of a pool whose
  counter equalled the number of active slots, the counter is one more than that number.
\<close>

theorem Replace_keeps_counter:
  assumes "pool_wf p" and "pos < Size p"
  shows "fst (Replace d p pos) = Inr () \<and>
         fst (Replace_args mk args p pos) = Inr () \<and>
         ObjectsInUse (snd (Replace d p pos)) = ObjectsInUse p \<and>
         ObjectsInUse (snd (Replace_args mk args p pos)) = ObjectsInUse p \<and>
         (IsInUse p pos \<longrightarrow>
            ObjectsInUse (snd (UnUse d p pos)) = ObjectsInUse p - 1 \<and>
            ObjectsInUse (snd (UnUse_args mk args p pos)) = ObjectsInUse p - 1 \<and>
            length (active_indices (snd (Replace d p pos))) + 1 = length (active_indices p) \<and>
            length (active_indices (snd (Replace_args mk args p pos))) + 1 =
              length (active_indices p)) \<and>
         (IsInUse p pos \<and> unat (ObjectsInUse p) = length (active_indices p) \<longrightarrow>
            unat (ObjectsInUse (snd (Replace d p pos))) =
              length (active_indices (snd (Replace d p pos))) + 1 \<and>
            unat (ObjectsInUse (snd (Replace_args mk args p pos))) =
              length (active_indices (snd (Replace_args mk args p pos))) + 1)"
proof -
  from assms(2) have pos: "pos < poolSize p" by (simp add: Size_def)
  have r: "Replace d p pos = (Inr (), set_bInUse (set_object p pos d) pos False)"
    using pos by (rule Replace_ok)
  have ra: "Replace_args mk args p pos =
      (Inr (), set_bInUse (set_object p pos (mk args)) pos False)"
    using pos by (rule Replace_args_ok)
  have cnt: "ObjectsInUse (snd (Replace d p pos)) = ObjectsInUse p"
    "ObjectsInUse (snd (Replace_args mk args p pos)) = ObjectsInUse p"
    by (simp_all add: r ra ObjectsInUse_def)
  have un: "ObjectsInUse (snd (UnUse d p pos)) = ObjectsInUse p - 1 \<and>
            ObjectsInUse (snd (UnUse_args mk args p pos)) = ObjectsInUse p - 1"
    if "IsInUse p pos"
    using that pos by (simp add: UnUse_def UnUse_args_def r ra ObjectsInUse_def IsInUse_def)
  have act: "length (active_indices (snd (Replace d p pos))) + 1 = length (active_indices p) \<and>
      length (active_indices (snd (Replace_args mk args p pos))) + 1 = length (active_indices p)"
    if "IsInUse p pos"
    using active_count_reconstructed [OF assms(1) that] by (simp add: r ra)
  from r ra cnt un act show ?thesis by simp
qed

text \<open>
  On a pool of two slots: after \<open>Use(0)\<close> the counter is 1 and one slot is active;
  after \<open>Replace(0)\<close> the counter is still 1 and no slot is active.
\<close>

theorem Replace_keeps_counter_witness:
  "pool_wf (snd (Use (CObjectPool_new (0::nat) 2) 0)) \<and>
   (0::nat) < Size (snd (Use (CObjectPool_new (0::nat) 2) 0)) \<and>
   IsInUse (snd (Use (CObjectPool_new (0::nat) 2) 0)) 0 \<and>
   unat (ObjectsInUse (snd (Use (CObjectPool_new (0::nat) 2) 0))) =
     length (active_indices (snd (Use (CObjectPool_new (0::nat) 2) 0))) \<and>
   fst (Replace 0 (snd (Use (CObjectPool_new (0::nat) 2) 0)) 0) = Inr () \<and>
   ObjectsInUse (snd (Replace 0 (snd (Use (CObjectPool_new (0::nat) 2) 0)) 0)) = 1 \<and>
   unat (ObjectsInUse (snd (Replace 0 (snd (Use (CObjectPool_new (0::nat) 2) 0)) 0))) =
     length (active_indices (snd (Replace 0 (snd (Use (CObjectPool_new (0::nat) 2) 0)) 0))) + 1"
proof -
  let ?p = "snd (Use (CObjectPool_new (0::nat) 2) 0)"
  have wf: "pool_wf ?p" by code_simp
  have lt: "(0::nat) < Size ?p" by code_simp
  have used: "IsInUse ?p 0" by code_simp
  have cnt: "ObjectsInUse ?p = 1" by code_simp
  have act: "length (active_indices ?p) = 1" by code_simp
  from cnt act have inv: "unat (ObjectsInUse ?p) = length (active_indices ?p)" by simp
  from Replace_keeps_counter [OF wf lt, of 0 "\<lambda>x. x" 0] used inv
  have r: "fst (Replace 0 ?p 0) = Inr ()"
    and same: "ObjectsInUse (snd (Replace 0 ?p 0)) = ObjectsInUse ?p"
    and off: "unat (ObjectsInUse (snd (Replace 0 ?p 0))) =
          length (active_indices (snd (Replace 0 ?p 0))) + 1"
    by blast+
  from same cnt have one: "ObjectsInUse (snd (Replace 0 ?p 0)) = 1"
    by (rule trans)
  from wf lt used inv r one off show ?thesis
    by blast
qed

text \<open>
  C4. In every pool state, \<open>UseNext\<close> finds the first free slot of the circular order
  that starts at the cursor \<open>nextIdx\<close> and runs through all \<open>poolSize\<close> positions with
  wrap-around. It sets that slot's flag, adds one to the counter, changes no other flag
  and no element, and returns the index both as \<open>found_pos\<close> and as the pointer to the
  slot's element. It returns \<open>FULL\<close> exactly when no slot is free.
\<close>

theorem UseNext_search_policy:
  assumes "pool_wf p"
  shows "UseNext p =
           (case first_free p of
              None \<Rightarrow> (Inl FULL, p)
            | Some i \<Rightarrow> (Inr (i, operator_index p i),
                         incr_objectsInUse (UpdateNextIdx (set_bInUse p i True))))
       \<and> (fst (UseNext p) = Inl FULL \<longleftrightarrow> (\<forall>i<Size p. IsInUse p i))
       \<and> (\<forall>i. first_free p = Some i \<longrightarrow>
             i < Size p \<and> \<not> IsInUse p i \<and>
             IsInUse (snd (UseNext p)) i \<and>
             ObjectsInUse (snd (UseNext p)) = ObjectsInUse p + 1 \<and>
             Size (snd (UseNext p)) = Size p \<and>
             (\<forall>j. j \<noteq> i \<longrightarrow> IsInUse (snd (UseNext p)) j = IsInUse p j) \<and>
             (\<forall>j. deref (snd (UseNext p)) j = deref p j))"
proof -
  from assms have len: "length (pool p) = poolSize p"
    by (simp add: pool_wf_def)
  have eq: "UseNext p =
           (case first_free p of
              None \<Rightarrow> (Inl FULL, p)
            | Some i \<Rightarrow> (Inr (i, operator_index p i),
                         incr_objectsInUse (UpdateNextIdx (set_bInUse p i True))))"
    using assms
    by (simp add: UseNext_def UseNext_loop_scan first_free_scan operator_index_def
        split: option.split)
  have full: "fst (UseNext p) = Inl FULL \<longleftrightarrow> (\<forall>i<Size p. IsInUse p i)"
  proof -
    have "fst (UseNext p) = Inl FULL \<longleftrightarrow> first_free p = None"
      by (simp add: eq split: option.split)
    then show ?thesis
      by (simp add: first_free_None Size_def IsInUse_def)
  qed
  have eff: "i < Size p \<and> \<not> IsInUse p i \<and>
             IsInUse (snd (UseNext p)) i \<and>
             ObjectsInUse (snd (UseNext p)) = ObjectsInUse p + 1 \<and>
             Size (snd (UseNext p)) = Size p \<and>
             (\<forall>j. j \<noteq> i \<longrightarrow> IsInUse (snd (UseNext p)) j = IsInUse p j) \<and>
             (\<forall>j. deref (snd (UseNext p)) j = deref p j)"
    if ff: "first_free p = Some i" for i
  proof -
    from first_free_Some [OF ff] have i: "i < poolSize p" "\<not> bInUse (pool p ! i)"
      by simp_all
    have st: "snd (UseNext p) = incr_objectsInUse (UpdateNextIdx (set_bInUse p i True))"
      by (simp add: eq ff)
    have flags: "IsInUse (snd (UseNext p)) j = IsInUse p j" if "j \<noteq> i" for j
      using that len by (simp add: st IsInUse_def set_bInUse_nth)
    have elems: "deref (snd (UseNext p)) j = deref p j" for j
      by (simp add: st deref_def set_bInUse_object)
    from i len flags elems show ?thesis
      by (simp add: st Size_def IsInUse_def ObjectsInUse_def set_bInUse_nth)
  qed
  from eq full eff show ?thesis by blast
qed

text \<open>
  Three \<open>UseNext\<close> calls on a pool of three slots leave the cursor at 2; after
  \<open>UnUse(0)\<close> the scan starts at 2, wraps around and takes slot 0.
\<close>

theorem UseNext_search_policy_witness:
  "pool_wf (snd (UnUse 0 (snd (UseNext (snd (UseNext (snd (UseNext
      (CObjectPool_new (0::nat) 3))))))) 0)) \<and>
   nextIdx (snd (UnUse 0 (snd (UseNext (snd (UseNext (snd (UseNext
      (CObjectPool_new (0::nat) 3))))))) 0)) = 2 \<and>
   first_free (snd (UnUse 0 (snd (UseNext (snd (UseNext (snd (UseNext
      (CObjectPool_new (0::nat) 3))))))) 0)) = Some 0 \<and>
   fst (UseNext (snd (UnUse 0 (snd (UseNext (snd (UseNext (snd (UseNext
      (CObjectPool_new (0::nat) 3))))))) 0))) = Inr (0, 0) \<and>
   IsInUse (snd (UseNext (snd (UnUse 0 (snd (UseNext (snd (UseNext (snd (UseNext
      (CObjectPool_new (0::nat) 3))))))) 0)))) 0 \<and>
   ObjectsInUse (snd (UseNext (snd (UnUse 0 (snd (UseNext (snd (UseNext (snd (UseNext
      (CObjectPool_new (0::nat) 3))))))) 0)))) = 3"
proof -
  let ?p = "snd (UnUse 0 (snd (UseNext (snd (UseNext (snd (UseNext
      (CObjectPool_new (0::nat) 3))))))) 0)"
  have wf: "pool_wf ?p" by code_simp
  have nx: "nextIdx ?p = 2" by code_simp
  have ff: "first_free ?p = Some 0" by code_simp
  have cnt: "ObjectsInUse ?p = 2" by code_simp
  from UseNext_search_policy [OF wf] ff
  have r: "fst (UseNext ?p) = Inr (0, 0)"
    by (simp add: operator_index_def)
  from UseNext_search_policy [OF wf] ff
  have e: "IsInUse (snd (UseNext ?p)) 0 \<and>
           ObjectsInUse (snd (UseNext ?p)) = ObjectsInUse ?p + 1"
    by blast
  from wf nx ff r e cnt show ?thesis by simp
qed

text \<open>
  C5. A fresh pool of \<open>N \<ge> 3\<close> slots is filled by \<open>N\<close> calls of \<open>UseNext\<close>, which
  return the indices \<open>0, \<dots>, N - 1\<close> in this order; one more call returns \<open>FULL\<close>.
  After \<open>UnUse(k)\<close> for one \<open>k\<close> with \<open>0 < k < N - 1\<close>, the next \<open>UseNext\<close> returns
  \<open>k\<close>, and the element at \<open>k\<close> is \<open>T()\<close>, whatever the caller wrote through the
  pointers in the meantime (\<open>ws\<close>: pairs of a pointer and the value written).
\<close>

theorem gap_filling:
  assumes "3 \<le> N" and "0 < k" and "k < N - 1"
  shows "let filled = UseNext_times N (CObjectPool_new d N);
             written = fold (\<lambda>(ptr, v) p. assign p ptr v) ws (snd filled);
             full = UseNext written;
             freed = UnUse d (snd full) k;
             again = UseNext (snd freed)
         in fst filled = map (\<lambda>i. Inr (i, operator_index (snd filled) i)) [0..<N] \<and>
            fst full = Inl FULL \<and>
            fst freed = Inr () \<and>
            fst again = Inr (k, operator_index (snd freed) k) \<and>
            IsInUse (snd again) k \<and>
            deref (snd again) k = d"
proof -
  let ?p0 = "CObjectPool_new d N"
  let ?p1 = "snd (UseNext_times N ?p0)"
  let ?p2 = "fold (\<lambda>(ptr, v) p. assign p ptr v) ws ?p1"
  let ?p4 = "snd (UnUse d ?p2 k)"
  from assms have k: "k < N" by simp
  have n0: "poolSize ?p0 = N" by (simp add: CObjectPool_new_def)
  from UseNext_times_fill [OF filled_upto_new, of N d N]
  have res: "fst (UseNext_times N ?p0) = map (\<lambda>i. Inr (i, i)) [0..<N]"
    and f1: "filled_upto ?p1 N" and n1: "poolSize ?p1 = N"
    by (simp_all add: n0)
  from f1 n1 have wf1: "pool_wf ?p1" and all1: "\<forall>i<N. bInUse (pool ?p1 ! i)"
    by (simp_all add: filled_upto_def)
  note keep = fold_assign_keeps [of ws ?p1]
  from keep n1 have n2: "poolSize ?p2 = N" by simp
  from keep wf1 have wf2: "pool_wf ?p2" by (simp add: pool_wf_def)
  from keep all1 have all2: "\<forall>i<N. bInUse (pool ?p2 ! i)" by simp
  from wf2 n2 have len2: "length (pool ?p2) = N" by (simp add: pool_wf_def)
  from all2 n2 have "first_free ?p2 = None" by (simp add: first_free_None)
  with wf2 have full: "UseNext ?p2 = (Inl FULL, ?p2)"
    by (simp add: UseNext_def UseNext_loop_scan first_free_scan)
  from k all2 n2 have un: "UnUse d ?p2 k =
      (Inr (), decr_objectsInUse (set_bInUse (set_object ?p2 k d) k False))"
    by (simp add: UnUse_def Replace_ok)
  then have p4: "?p4 = decr_objectsInUse (set_bInUse (set_object ?p2 k d) k False)"
    by simp
  from wf2 have wf4: "pool_wf ?p4"
    by (simp add: p4 pool_wf_def)
  have n4: "poolSize ?p4 = N" by (simp add: p4 n2)
  have slot4: "pool ?p4 ! i = (if i = k then \<lparr>bInUse = False, object = d\<rparr> else pool ?p2 ! i)"
    for i
    using k len2 by (simp add: p4 reconstructed_slot)
  from k all2 have "first_free ?p4 = Some k"
    by (intro first_free_only) (simp_all add: n4 slot4)
  with wf4 have again: "UseNext ?p4 =
      (Inr (k, k), incr_objectsInUse (UpdateNextIdx (set_bInUse ?p4 k True)))"
    by (simp add: UseNext_def UseNext_loop_scan first_free_scan)
  have len4: "length (pool ?p4) = N" by (simp add: p4 len2)
  from k len4 have final: "pool (snd (UseNext ?p4)) ! k = \<lparr>bInUse = True, object = d\<rparr>"
    by (simp add: again set_bInUse_nth slot4)
  have sz: "poolSize (snd (UseNext ?p4)) = N"
    by (simp add: again n4)
  have r4: "fst (UseNext ?p4) = Inr (k, operator_index ?p4 k)"
    by (simp add: again operator_index_def)
  have r3: "fst (UnUse d ?p2 k) = Inr ()"
    by (simp add: un)
  have r1: "fst (UseNext_times N ?p0) = map (\<lambda>i. Inr (i, operator_index ?p1 i)) [0..<N]"
    by (simp add: res operator_index_def)
  from k final sz have act: "IsInUse (snd (UseNext ?p4)) k"
    and elem: "deref (snd (UseNext ?p4)) k = d"
    by (simp_all add: IsInUse_def deref_def)
  from r1 r3 r4 act elem have "fst (UseNext_times N ?p0) =
        map (\<lambda>i. Inr (i, operator_index ?p1 i)) [0..<N] \<and>
      fst (UseNext ?p2) = Inl FULL \<and>
      fst (UnUse d (snd (UseNext ?p2)) k) = Inr () \<and>
      fst (UseNext (snd (UnUse d (snd (UseNext ?p2)) k))) =
        Inr (k, operator_index (snd (UnUse d (snd (UseNext ?p2)) k)) k) \<and>
      IsInUse (snd (UseNext (snd (UnUse d (snd (UseNext ?p2)) k)))) k \<and>
      deref (snd (UseNext (snd (UnUse d (snd (UseNext ?p2)) k)))) k = d"
    unfolding full snd_conv fst_conv by blast
  then show ?thesis
    by (simp only: Let_def)
qed

text \<open>
  The scenario of the test \<open>UseNext_WithGaps\<close>: three slots, \<open>k = 1\<close>, and the value 9
  written into slot 1 before it is freed.
\<close>

theorem gap_filling_witness:
  "(3::nat) \<le> 3 \<and> (0::nat) < 1 \<and> (1::nat) < 3 - 1 \<and>
   fst (UseNext_times 3 (CObjectPool_new (0::nat) 3)) = [Inr (0, 0), Inr (1, 1), Inr (2, 2)] \<and>
   deref (fold (\<lambda>(ptr, v) p. assign p ptr v) [(1, 9)]
            (snd (UseNext_times 3 (CObjectPool_new (0::nat) 3)))) 1 = 9 \<and>
   (let filled = UseNext_times 3 (CObjectPool_new (0::nat) 3);
        written = fold (\<lambda>(ptr, v) p. assign p ptr v) [(1, 9)] (snd filled);
        full = UseNext written;
        freed = UnUse 0 (snd full) 1;
        again = UseNext (snd freed)
    in fst filled = map (\<lambda>i. Inr (i, operator_index (snd filled) i)) [0..<3] \<and>
       fst full = Inl FULL \<and>
       fst freed = Inr () \<and>
       fst again = Inr (1, operator_index (snd freed) 1) \<and>
       IsInUse (snd again) 1 \<and>
       deref (snd again) 1 = 0)"
proof -
  have h: "(3::nat) \<le> 3" "(0::nat) < 1" "(1::nat) < 3 - 1"
    by simp_all
  have r: "fst (UseNext_times 3 (CObjectPool_new (0::nat) 3)) =
      [Inr (0, 0), Inr (1, 1), Inr (2, 2)]"
    by code_simp
  have w: "deref (fold (\<lambda>(ptr, v) p. assign p ptr v) [(1, 9)]
            (snd (UseNext_times 3 (CObjectPool_new (0::nat) 3)))) 1 = 9"
    by code_simp
  from h r w gap_filling [OF h, of "0::nat" "[(1, 9)]"] show ?thesis
    by blast
qed

text \<open>
  C6. \<open>IsInUse(pos)\<close> with \<open>pos\<close> not below the capacity (the capacity itself
  included) is false; \<open>Use\<close>, \<open>Get\<close> and \<open>Replace\<close> return \<open>OUT_OF_RANGE\<close> there; and
  whenever a fallible operation returns an error, the pool after the call is the pool
  before it: flags, counter, cursor and elements.
\<close>

theorem errors_leave_pool_unchanged:
  "(Size p \<le> pos \<longrightarrow>
      IsInUse p pos = False \<and>
      fst (Use p pos) = Inl OUT_OF_RANGE \<and>
      fst (Get p pos) = Inl OUT_OF_RANGE \<and>
      Get_const p pos = Inl OUT_OF_RANGE \<and>
      fst (Replace d p pos) = Inl OUT_OF_RANGE \<and>
      fst (Replace_args mk args p pos) = Inl OUT_OF_RANGE)
   \<and> (\<forall>e. fst (Use p pos) = Inl e \<longrightarrow> snd (Use p pos) = p)
   \<and> (\<forall>e. fst (UseNext p) = Inl e \<longrightarrow> snd (UseNext p) = p)
   \<and> (\<forall>e. fst (UseNextReplace d p) = Inl e \<longrightarrow> snd (UseNextReplace d p) = p)
   \<and> (\<forall>e. fst (UseNextReplace_args mk args p) = Inl e \<longrightarrow>
            snd (UseNextReplace_args mk args p) = p)
   \<and> (\<forall>e. fst (Get p pos) = Inl e \<longrightarrow> snd (Get p pos) = p)
   \<and> (\<forall>e. fst (UnUse d p pos) = Inl e \<longrightarrow> snd (UnUse d p pos) = p)
   \<and> (\<forall>e. fst (UnUse_args mk args p pos) = Inl e \<longrightarrow> snd (UnUse_args mk args p pos) = p)
   \<and> (\<forall>e. fst (Replace d p pos) = Inl e \<longrightarrow> snd (Replace d p pos) = p)
   \<and> (\<forall>e. fst (Replace_args mk args p pos) = Inl e \<longrightarrow> snd (Replace_args mk args p pos) = p)"
proof -
  have oor: "Size p \<le> pos \<longrightarrow>
      IsInUse p pos = False \<and>
      fst (Use p pos) = Inl OUT_OF_RANGE \<and>
      fst (Get p pos) = Inl OUT_OF_RANGE \<and>
      Get_const p pos = Inl OUT_OF_RANGE \<and>
      fst (Replace d p pos) = Inl OUT_OF_RANGE \<and>
      fst (Replace_args mk args p pos) = Inl OUT_OF_RANGE"
    by (simp add: Size_def IsInUse_def Use_def Get_def Get_const_def Replace_def Replace_args_def)
  have use: "\<forall>e. fst (Use p pos) = Inl e \<longrightarrow> snd (Use p pos) = p"
    by (simp add: Use_def)
  have nxt: "\<forall>e. fst (UseNext p) = Inl e \<longrightarrow> snd (UseNext p) = p"
    by (auto simp: UseNext_def dest: UseNext_loop_error)
  have nxr: "\<forall>e. fst (UseNextReplace d p) = Inl e \<longrightarrow> snd (UseNextReplace d p) = p"
    by (auto simp: UseNextReplace_def dest: UseNextReplace_loop_error)
  have nxa: "\<forall>e. fst (UseNextReplace_args mk args p) = Inl e \<longrightarrow>
            snd (UseNextReplace_args mk args p) = p"
    by (auto simp: UseNextReplace_args_def dest: UseNextReplace_args_loop_error)
  have get: "\<forall>e. fst (Get p pos) = Inl e \<longrightarrow> snd (Get p pos) = p"
    by (simp add: Get_def)
  have un: "\<forall>e. fst (UnUse d p pos) = Inl e \<longrightarrow> snd (UnUse d p pos) = p"
    by (simp add: UnUse_def)
  have una: "\<forall>e. fst (UnUse_args mk args p pos) = Inl e \<longrightarrow> snd (UnUse_args mk args p pos) = p"
    by (simp add: UnUse_args_def)
  have rep: "\<forall>e. fst (Replace d p pos) = Inl e \<longrightarrow> snd (Replace d p pos) = p"
    by (simp add: Replace_def)
  have repa: "\<forall>e. fst (Replace_args mk args p pos) = Inl e \<longrightarrow> snd (Replace_args mk args p pos) = p"
    by (simp add: Replace_args_def)
  from oor use nxt nxr nxa get un una rep repa show ?thesis by blast
qed

text \<open>
  At the pool of two slots, both active: index 2 is the capacity, \<open>UseNext\<close> is
  \<open>FULL\<close>, \<open>Use(0)\<close> is \<open>ALREADY_IN_USE\<close>, and the pool is the same after each.
\<close>

theorem errors_leave_pool_unchanged_witness:
  "Size (snd (Use (snd (Use (CObjectPool_new (0::nat) 2) 0)) 1)) \<le> 2 \<and>
   IsInUse (snd (Use (snd (Use (CObjectPool_new (0::nat) 2) 0)) 1)) 2 = False \<and>
   fst (Use (snd (Use (snd (Use (CObjectPool_new (0::nat) 2) 0)) 1)) 2) = Inl OUT_OF_RANGE \<and>
   snd (Use (snd (Use (snd (Use (CObjectPool_new (0::nat) 2) 0)) 1)) 2) =
     snd (Use (snd (Use (CObjectPool_new (0::nat) 2) 0)) 1) \<and>
   fst (UseNext (snd (Use (snd (Use (CObjectPool_new (0::nat) 2) 0)) 1))) = Inl FULL \<and>
   snd (UseNext (snd (Use (snd (Use (CObjectPool_new (0::nat) 2) 0)) 1))) =
     snd (Use (snd (Use (CObjectPool_new (0::nat) 2) 0)) 1) \<and>
   fst (UseNextReplace 0 (snd (Use (snd (Use (CObjectPool_new (0::nat) 2) 0)) 1))) = Inl FULL \<and>
   snd (UseNextReplace 0 (snd (Use (snd (Use (CObjectPool_new (0::nat) 2) 0)) 1))) =
     snd (Use (snd (Use (CObjectPool_new (0::nat) 2) 0)) 1)"
proof -
  let ?p = "snd (Use (snd (Use (CObjectPool_new (0::nat) 2) 0)) 1)"
  have p: "?p = \<lparr>poolSize = 2, nextIdx = 1, objectsInUse = 2,
      pool = [\<lparr>bInUse = True, object = 0\<rparr>, \<lparr>bInUse = True, object = 0\<rparr>]\<rparr>"
    by (simp add: Use_def CObjectPool_new_def numeral_2_eq_2 set_bInUse_def
        UpdateNextIdx_def UpdateNextIdx_loop.simps incr_objectsInUse_def)
  have sz: "Size ?p \<le> 2" unfolding p by (simp add: Size_def)
  have full: "fst (UseNext ?p) = Inl FULL" unfolding p
    by (simp add: UseNext_def UseNext_loop.simps)
  have fullr: "fst (UseNextReplace 0 ?p) = Inl FULL" unfolding p
    by (simp add: UseNextReplace_def UseNextReplace_loop.simps)
  from errors_leave_pool_unchanged [of ?p 2 0 "\<lambda>x. x" 0] sz full fullr
  show ?thesis by simp
qed

text \<open>
  C7. For every active index \<open>i\<close>: \<open>UnUse(i)\<close> succeeds, the \<open>Use(i)\<close> after it
  succeeds, and the element at \<open>i\<close> is then \<open>T()\<close>, whatever it was before; and
  \<open>UnUse(i, args...)\<close> succeeds and leaves \<open>T(args...)\<close> at \<open>i\<close>.
\<close>

theorem UnUse_resets_element:
  assumes "pool_wf p" and "IsInUse p i"
  shows "fst (UnUse d p i) = Inr () \<and>
         IsInUse (snd (UnUse d p i)) i = False \<and>
         deref (snd (UnUse d p i)) i = d \<and>
         fst (Use (snd (UnUse d p i)) i) = Inr (operator_index p i) \<and>
         IsInUse (snd (Use (snd (UnUse d p i)) i)) i \<and>
         deref (snd (Use (snd (UnUse d p i)) i)) i = d \<and>
         fst (UnUse_args mk args p i) = Inr () \<and>
         IsInUse (snd (UnUse_args mk args p i)) i = False \<and>
         deref (snd (UnUse_args mk args p i)) i = mk args \<and>
         fst (Use (snd (UnUse_args mk args p i)) i) = Inr (operator_index p i) \<and>
         deref (snd (Use (snd (UnUse_args mk args p i)) i)) i = mk args"
proof -
  from assms(1) have len: "length (pool p) = poolSize p"
    by (simp add: pool_wf_def)
  from assms(2) have i: "i < poolSize p" "bInUse (pool p ! i)"
    by (simp_all add: IsInUse_def split: if_splits)
  have u: "UnUse d p i = (Inr (), decr_objectsInUse (set_bInUse (set_object p i d) i False))"
    using i by (simp add: UnUse_def Replace_ok)
  have ua: "UnUse_args mk args p i =
      (Inr (), decr_objectsInUse (set_bInUse (set_object p i (mk args)) i False))"
    using i by (simp add: UnUse_args_def Replace_args_ok)
  have slot: "pool (set_bInUse (set_object p i v) i False) ! i =
      \<lparr>bInUse = False, object = v\<rparr>" for v
    using i len by (simp add: reconstructed_slot)
  have use: "Use (decr_objectsInUse (set_bInUse (set_object p i v) i False)) i =
      (Inr i, incr_objectsInUse (UpdateNextIdx
        (set_bInUse (decr_objectsInUse (set_bInUse (set_object p i v) i False)) i True)))" for v
    using i slot [of v] by (simp add: Use_def)
  have after: "pool (set_bInUse (decr_objectsInUse (set_bInUse (set_object p i v) i False))
        i True) ! i = \<lparr>bInUse = True, object = v\<rparr>" for v
    using i len slot [of v] by (simp add: set_bInUse_nth)
  from i len show ?thesis
    by (simp add: u ua use slot after IsInUse_def deref_def operator_index_def)
qed

text \<open>
  Slot 1 of a pool of three slots is active and holds 9: after \<open>UnUse(1)\<close> and
  \<open>Use(1)\<close> it holds \<open>T() = 0\<close>, and after \<open>UnUse(1, 5)\<close> it holds 5.
\<close>

theorem UnUse_resets_element_witness:
  "pool_wf (assign (snd (Use (CObjectPool_new (0::nat) 3) 1)) 1 9) \<and>
   IsInUse (assign (snd (Use (CObjectPool_new (0::nat) 3) 1)) 1 9) 1 \<and>
   deref (assign (snd (Use (CObjectPool_new (0::nat) 3) 1)) 1 9) 1 = 9 \<and>
   fst (UnUse 0 (assign (snd (Use (CObjectPool_new (0::nat) 3) 1)) 1 9) 1) = Inr () \<and>
   fst (Use (snd (UnUse 0 (assign (snd (Use (CObjectPool_new (0::nat) 3) 1)) 1 9) 1)) 1) =
     Inr 1 \<and>
   deref (snd (Use (snd (UnUse 0 (assign (snd (Use (CObjectPool_new (0::nat) 3) 1)) 1 9) 1)) 1)) 1
     = 0 \<and>
   deref (snd (UnUse_args (\<lambda>x. x) 5 (assign (snd (Use (CObjectPool_new (0::nat) 3) 1)) 1 9) 1)) 1
     = 5"
proof -
  let ?p = "assign (snd (Use (CObjectPool_new (0::nat) 3) 1)) 1 9"
  have wf: "pool_wf ?p" by code_simp
  have used: "IsInUse ?p 1" by code_simp
  have old: "deref ?p 1 = 9" by code_simp
  from UnUse_resets_element [OF wf used, of 0 "\<lambda>x. x" 5] wf used old
  show ?thesis by (simp add: operator_index_def)
qed

text \<open>
  C8. \<open>UseNextReplace\<close>, with or without constructor arguments, is \<open>Replace\<close> at the free
  index that \<open>UseNext\<close> would find, followed by \<open>Use\<close> of that index: it returns what
  \<open>UseNext\<close> returns (the same index, or \<open>FULL\<close>, which it returns exactly when no slot
  is free, leaving the pool as it was), it ends in the pool that \<open>Replace\<close> and then
  \<open>Use\<close> produce, and the element it returns is \<open>T()\<close>, or \<open>T(args...)\<close>, whatever
  the slot held before.
\<close>

theorem UseNextReplace_is_Replace_then_Use:
  assumes "pool_wf p"
  shows "fst (UseNextReplace d p) = fst (UseNext p) \<and>
         fst (UseNextReplace_args mk args p) = fst (UseNext p) \<and>
         (fst (UseNextReplace d p) = Inl FULL \<longleftrightarrow> (\<forall>i<Size p. IsInUse p i)) \<and>
         (fst (UseNextReplace_args mk args p) = Inl FULL \<longleftrightarrow> (\<forall>i<Size p. IsInUse p i)) \<and>
         (first_free p = None \<longrightarrow>
            UseNextReplace d p = (Inl FULL, p) \<and>
            UseNextReplace_args mk args p = (Inl FULL, p)) \<and>
         (\<forall>i. first_free p = Some i \<longrightarrow>
            fst (UseNextReplace d p) = Inr (i, operator_index p i) \<and>
            fst (Replace d p i) = Inr () \<and>
            Use (snd (Replace d p i)) i = (Inr i, snd (UseNextReplace d p)) \<and>
            IsInUse (snd (UseNextReplace d p)) i \<and>
            deref (snd (UseNextReplace d p)) i = d \<and>
            fst (UseNextReplace_args mk args p) = Inr (i, operator_index p i) \<and>
            fst (Replace_args mk args p i) = Inr () \<and>
            Use (snd (Replace_args mk args p i)) i =
              (Inr i, snd (UseNextReplace_args mk args p)) \<and>
            IsInUse (snd (UseNextReplace_args mk args p)) i \<and>
            deref (snd (UseNextReplace_args mk args p)) i = mk args)"
proof -
  from assms have len: "length (pool p) = poolSize p"
    by (simp add: pool_wf_def)
  have nxt: "UseNext p =
      (case first_free p of
         None \<Rightarrow> (Inl FULL, p)
       | Some i \<Rightarrow> (Inr (i, i), incr_objectsInUse (UpdateNextIdx (set_bInUse p i True))))"
    using assms by (simp add: UseNext_def UseNext_loop_scan first_free_scan)
  have rep: "UseNextReplace d p =
      (case first_free p of
         None \<Rightarrow> (Inl FULL, p)
       | Some i \<Rightarrow>
           (case Replace d p i of
              (Inl e, p') \<Rightarrow> (Inl e, p')
            | (Inr u, p') \<Rightarrow>
                (Inr (i, i), UpdateNextIdx (incr_objectsInUse (set_bInUse p' i True)))))"
    using assms by (simp add: UseNextReplace_def UseNextReplace_loop_scan first_free_scan)
  have repa: "UseNextReplace_args mk args p =
      (case first_free p of
         None \<Rightarrow> (Inl FULL, p)
       | Some i \<Rightarrow>
           (case Replace_args mk args p i of
              (Inl e, p') \<Rightarrow> (Inl e, p')
            | (Inr u, p') \<Rightarrow>
                (Inr (i, i), UpdateNextIdx (incr_objectsInUse (set_bInUse p' i True)))))"
    using assms
    by (simp add: UseNextReplace_args_def UseNextReplace_args_loop_scan first_free_scan)
  have none: "UseNextReplace d p = (Inl FULL, p) \<and> UseNextReplace_args mk args p = (Inl FULL, p)"
    if "first_free p = None"
    using that by (simp add: rep repa)
  have some: "fst (UseNext p) = Inr (i, i) \<and>
            fst (UseNextReplace d p) = Inr (i, operator_index p i) \<and>
            fst (Replace d p i) = Inr () \<and>
            Use (snd (Replace d p i)) i = (Inr i, snd (UseNextReplace d p)) \<and>
            IsInUse (snd (UseNextReplace d p)) i \<and>
            deref (snd (UseNextReplace d p)) i = d \<and>
            fst (UseNextReplace_args mk args p) = Inr (i, operator_index p i) \<and>
            fst (Replace_args mk args p i) = Inr () \<and>
            Use (snd (Replace_args mk args p i)) i =
              (Inr i, snd (UseNextReplace_args mk args p)) \<and>
            IsInUse (snd (UseNextReplace_args mk args p)) i \<and>
            deref (snd (UseNextReplace_args mk args p)) i = mk args"
    if ff: "first_free p = Some i" for i
  proof -
    from first_free_Some [OF ff] have i: "i < poolSize p" "\<not> bInUse (pool p ! i)"
      by simp_all
    have slot: "pool (set_bInUse (set_object p i v) i False) ! i =
        \<lparr>bInUse = False, object = v\<rparr>" for v
      using i len by (simp add: reconstructed_slot)
    have after: "pool (set_bInUse (set_bInUse (set_object p i v) i False) i True) ! i =
        \<lparr>bInUse = True, object = v\<rparr>" for v
      using i len slot [of v] by (simp add: set_bInUse_nth)
    from i len show ?thesis
      by (simp add: nxt rep repa ff Replace_ok Replace_args_ok Use_def slot after
          UpdateNextIdx_incr IsInUse_def deref_def operator_index_def)
  qed
  have same: "fst (UseNextReplace d p) = fst (UseNext p) \<and>
         fst (UseNextReplace_args mk args p) = fst (UseNext p)"
  proof (cases "first_free p")
    case None
    then show ?thesis by (simp add: none nxt)
  next
    case (Some i)
    from some [OF Some] show ?thesis by (simp add: operator_index_def)
  qed
  have full: "fst (UseNext p) = Inl FULL \<longleftrightarrow> (\<forall>i<Size p. IsInUse p i)"
  proof -
    have "fst (UseNext p) = Inl FULL \<longleftrightarrow> first_free p = None"
      by (simp add: nxt split: option.split)
    then show ?thesis
      by (simp add: first_free_None Size_def IsInUse_def)
  qed
  from same full
  have fullr: "fst (UseNextReplace d p) = Inl FULL \<longleftrightarrow> (\<forall>i<Size p. IsInUse p i)"
    and fulla: "fst (UseNextReplace_args mk args p) = Inl FULL \<longleftrightarrow> (\<forall>i<Size p. IsInUse p i)"
    by simp_all
  from same fullr fulla none some show ?thesis by blast
qed

text \<open>
  Both slots of a pool of two are free and slot 0 holds the stale value 9:
  \<open>UseNext\<close> hands out slot 0 with the 9 in it, \<open>UseNextReplace\<close> hands out slot 0
  holding \<open>T() = 0\<close>, and with the argument 5, holding 5.
\<close>

theorem UseNextReplace_is_Replace_then_Use_witness:
  "pool_wf (assign (CObjectPool_new (0::nat) 2) 0 9) \<and>
   first_free (assign (CObjectPool_new (0::nat) 2) 0 9) = Some 0 \<and>
   deref (snd (UseNext (assign (CObjectPool_new (0::nat) 2) 0 9))) 0 = 9 \<and>
   fst (UseNextReplace 0 (assign (CObjectPool_new (0::nat) 2) 0 9)) = Inr (0, 0) \<and>
   deref (snd (UseNextReplace 0 (assign (CObjectPool_new (0::nat) 2) 0 9))) 0 = 0 \<and>
   fst (UseNextReplace_args (\<lambda>x. x) 5 (assign (CObjectPool_new (0::nat) 2) 0 9)) = Inr (0, 0) \<and>
   deref (snd (UseNextReplace_args (\<lambda>x. x) 5 (assign (CObjectPool_new (0::nat) 2) 0 9))) 0 = 5"
proof -
  let ?p = "assign (CObjectPool_new (0::nat) 2) 0 9"
  have wf: "pool_wf ?p" by code_simp
  have ff: "first_free ?p = Some 0" by code_simp
  have stale: "deref (snd (UseNext ?p)) 0 = 9" by code_simp
  from UseNextReplace_is_Replace_then_Use [OF wf, of 0 "\<lambda>x. x" 5] ff
  have "fst (UseNextReplace 0 ?p) = Inr (0, operator_index ?p 0) \<and>
        deref (snd (UseNextReplace 0 ?p)) 0 = 0 \<and>
        fst (UseNextReplace_args (\<lambda>x. x) 5 ?p) = Inr (0, operator_index ?p 0) \<and>
        deref (snd (UseNextReplace_args (\<lambda>x. x) 5 ?p)) 0 = 5"
    by blast
  with wf ff stale show ?thesis by (simp add: operator_index_def)
qed

text \<open>
  C9. Iteration: in every pool state a traversal from \<open>begin()\<close> to \<open>end()\<close> yields
  exactly the elements at the active indices, in increasing order of the index, and as
  many of them as \<open>ObjectsInUse()\<close> says; with no active slot \<open>begin()\<close> equals
  \<open>end()\<close>, and with only the last slot active the traversal yields one element and
  reaches \<open>end()\<close>. The code does all of this (\<open>traverse_begin\<close>,
  \<open>traverse_elements\<close>, \<open>sorted_active_indices\<close>, \<open>begin_is_end\<close>,
  \<open>only_last_active\<close>) but for the count: the traversal yields as many elements as
  there are active slots (\<open>traverse_length\<close>), which is \<open>ObjectsInUse()\<close> only while
  the counter is in step (\<open>traverse_count_in_step\<close>). On a fresh pool of one slot, after
  \<open>Use(0)\<close> and \<open>Replace(0)\<close>, the traversal yields nothing and \<open>begin()\<close> equals
  \<open>end()\<close>, while \<open>ObjectsInUse()\<close> is 1.
\<close>

theorem traversal_count_differs_after_Replace:
  "traverse (snd (Replace 0 (snd (Use (CObjectPool_new (0::nat) 1) 0)) 0))
     (pool_begin (snd (Replace 0 (snd (Use (CObjectPool_new (0::nat) 1) 0)) 0))) = [] \<and>
   operator_eq (pool_begin (snd (Replace 0 (snd (Use (CObjectPool_new (0::nat) 1) 0)) 0)))
     (pool_end (snd (Replace 0 (snd (Use (CObjectPool_new (0::nat) 1) 0)) 0))) \<and>
   ObjectsInUse (snd (Replace 0 (snd (Use (CObjectPool_new (0::nat) 1) 0)) 0)) = 1"
  by code_simp

text \<open>
  C10. Two iterators over the same pool are equal exactly when they point at the same
  slot's element, or both at none: for the iterators that \<open>begin()\<close>, \<open>end()\<close> and
  \<open>++\<close> produce, exactly when they stand at the same position below the capacity or
  both at or past the capacity. Any two end iterators are equal, and an end iterator is
  never equal to an iterator that points at an element.
\<close>

theorem iterator_equality:
  assumes "pool_iterator p a" and "pool_iterator p b"
  shows "(operator_eq a b \<longleftrightarrow> pObject a = pObject b) \<and>
         (operator_neq a b \<longleftrightarrow> \<not> operator_eq a b) \<and>
         (pObject a = (if IsInUse p (currentPos a) then Some (currentPos a) else None)) \<and>
         (operator_eq a b \<longleftrightarrow>
            (currentPos a < Size p \<and> currentPos a = currentPos b) \<or>
            (Size p \<le> currentPos a \<and> Size p \<le> currentPos b)) \<and>
         operator_eq (pool_end p) (pool_end q) \<and>
         (Size p \<le> currentPos a \<longrightarrow> operator_eq a (pool_end p)) \<and>
         (\<forall>c. pObject c \<noteq> None \<longrightarrow>
              \<not> operator_eq (pool_end p) c \<and> \<not> operator_eq c (pool_end p))"
proof -
  note pa = pool_iterator_pObject [OF assms(1)]
  note pb = pool_iterator_pObject [OF assms(2)]
  have e: "pObject (pool_end r) = None" for r :: "'c CObjectPool"
    by (simp add: pool_end_def CIterator_new_def SkipToEnd_def)
  have pos: "operator_eq a b \<longleftrightarrow>
            (currentPos a < Size p \<and> currentPos a = currentPos b) \<or>
            (Size p \<le> currentPos a \<and> Size p \<le> currentPos b)"
    using pa pb by (auto simp: operator_eq_def Size_def dest: IsInUse_less)
  have past: "operator_eq a (pool_end p)" if "Size p \<le> currentPos a"
    using pa that by (auto simp: operator_eq_def e Size_def dest: IsInUse_less)
  have ends: "operator_eq (pool_end p) (pool_end q)"
    by (simp add: operator_eq_def e)
  have ne: "\<not> operator_eq (pool_end p) c \<and> \<not> operator_eq c (pool_end p)"
    if "pObject c \<noteq> None" for c
    using that by (auto simp: operator_eq_def e)
  have eq: "operator_eq a b \<longleftrightarrow> pObject a = pObject b"
    and neq: "operator_neq a b \<longleftrightarrow> \<not> operator_eq a b"
    by (simp_all add: operator_eq_def operator_neq_def)
  from eq neq pa pos ends past ne show ?thesis by blast
qed

text \<open>
  In a pool of three slots with only slot 1 active, \<open>begin()\<close> points at slot 1 and
  differs from \<open>end()\<close>; one \<open>++\<close> later the iterator equals \<open>end()\<close>.
\<close>

theorem iterator_equality_witness:
  "pool_iterator (snd (Use (CObjectPool_new (0::nat) 3) 1))
     (pool_begin (snd (Use (CObjectPool_new (0::nat) 3) 1))) \<and>
   pool_iterator (snd (Use (CObjectPool_new (0::nat) 3) 1))
     (operator_inc (snd (Use (CObjectPool_new (0::nat) 3) 1))
        (pool_begin (snd (Use (CObjectPool_new (0::nat) 3) 1)))) \<and>
   pObject (pool_begin (snd (Use (CObjectPool_new (0::nat) 3) 1))) = Some 1 \<and>
   \<not> operator_eq (pool_begin (snd (Use (CObjectPool_new (0::nat) 3) 1)))
       (operator_inc (snd (Use (CObjectPool_new (0::nat) 3) 1))
          (pool_begin (snd (Use (CObjectPool_new (0::nat) 3) 1)))) \<and>
   \<not> operator_eq (pool_end (snd (Use (CObjectPool_new (0::nat) 3) 1)))
       (pool_begin (snd (Use (CObjectPool_new (0::nat) 3) 1))) \<and>
   operator_eq (operator_inc (snd (Use (CObjectPool_new (0::nat) 3) 1))
          (pool_begin (snd (Use (CObjectPool_new (0::nat) 3) 1))))
       (pool_end (snd (Use (CObjectPool_new (0::nat) 3) 1)))"
proof -
  let ?p = "snd (Use (CObjectPool_new (0::nat) 3) 1)"
  let ?a = "pool_begin ?p"
  let ?b = "operator_inc ?p ?a"
  have a: "pool_iterator ?p ?a" by (rule it_begin)
  then have b: "pool_iterator ?p ?b" by (rule it_inc)
  have ca: "currentPos ?a = 1" and cb: "currentPos ?b = 3" and sz: "Size ?p = 3"
    and oa: "pObject ?a = Some 1"
    by code_simp+
  from iterator_equality [OF a b, of ?p]
  have "operator_eq ?a ?b \<longleftrightarrow>
      (currentPos ?a < Size ?p \<and> currentPos ?a = currentPos ?b) \<or>
      (Size ?p \<le> currentPos ?a \<and> Size ?p \<le> currentPos ?b)"
    by blast
  then have ab: "\<not> operator_eq ?a ?b"
    unfolding ca cb sz by simp
  from oa have "pObject ?a \<noteq> None" by simp
  with iterator_equality [OF a b, of ?p]
  have ea: "\<not> operator_eq (pool_end ?p) ?a" by blast
  from iterator_equality [OF b a, of ?p]
  have "Size ?p \<le> currentPos ?b \<longrightarrow> operator_eq ?b (pool_end ?p)"
    by blast
  then have be: "operator_eq ?b (pool_end ?p)"
    unfolding cb sz by simp
  from a b oa ab ea be show ?thesis by blast
qed

end
